theory Spec2Isabelle
  imports Complex_Main "HOL-Library.Word"
begin

section \<open>Text: JavaScript strings\<close>

text \<open>
  A JavaScript string is a sequence of 16-bit code units, and \<^const>\<open>length\<close> is
  \<open>String.length\<close>. A regular expression with the \<open>u\<close> flag reads a string as code
  points: a high surrogate followed by a low surrogate is one code point, every other unit is
  one on its own. \<open>\s\<close> and \<open>trim\<close> know the white space and line terminators of
  ECMAScript, all of them single units.

  The lowercasing and the classes \<open>\p{L}\<close> and \<open>\p{N}\<close> are the Unicode data of the
  runtime: the parameter \<open>U\<close> of every function that normalizes. \<open>toLowerCase\<close> is a
  function of the whole string: it may look at the context of a character and change the
  length.
\<close>

type_synonym jsString = "16 word list"

definition isHigh :: "16 word \<Rightarrow> bool" where
  "isHigh u = (0xD800 \<le> u \<and> u \<le> 0xDBFF)"

definition isLow :: "16 word \<Rightarrow> bool" where
  "isLow u = (0xDC00 \<le> u \<and> u \<le> 0xDFFF)"

datatype codePoint = Unit "16 word" | Pair "16 word" "16 word"

fun codePoints :: "jsString \<Rightarrow> codePoint list" where
  "codePoints (h # l # s) =
     (if isHigh h \<and> isLow l then Pair h l # codePoints s else Unit h # codePoints (l # s))"
| "codePoints [u] = [Unit u]"
| "codePoints [] = []"

fun unitsOf :: "codePoint \<Rightarrow> jsString" where
  "unitsOf (Unit u) = [u]"
| "unitsOf (Pair h l) = [h, l]"

definition units :: "codePoint list \<Rightarrow> jsString" where
  "units cs = concat (map unitsOf cs)"

definition isSpace :: "16 word \<Rightarrow> bool" where
  "isSpace u =
     (u \<in> {0x09, 0x0A, 0x0B, 0x0C, 0x0D, 0x20, 0xA0, 0x1680, 0x2028, 0x2029, 0x202F, 0x205F,
            0x3000, 0xFEFF} \<or> (0x2000 \<le> u \<and> u \<le> 0x200A))"

definition isSpaceCp :: "codePoint \<Rightarrow> bool" where
  "isSpaceCp c = (case c of Unit u \<Rightarrow> isSpace u | Pair h l \<Rightarrow> False)"

record unicode =
  toLowerCase :: "jsString \<Rightarrow> jsString"
  isLetter :: "codePoint \<Rightarrow> bool"
  isNumber :: "codePoint \<Rightarrow> bool"

fun crlfToLf :: "jsString \<Rightarrow> jsString" where
  "crlfToLf (c # d # s) =
     (if c = 0x0D \<and> d = 0x0A then 0x0A # crlfToLf s else c # crlfToLf (d # s))"
| "crlfToLf s = s"

function replaceRuns :: "('a \<Rightarrow> bool) \<Rightarrow> 'a \<Rightarrow> 'a list \<Rightarrow> 'a list" where
  "replaceRuns C blank [] = []"
| "replaceRuns C blank (c # s) =
     (if C c then blank # replaceRuns C blank (dropWhile C s) else c # replaceRuns C blank s)"
  by pat_completeness auto
termination
  by (relation "measure (\<lambda>(C, b, s). length s)") (auto simp: length_dropWhile_le less_Suc_eq_le)

definition trim :: "jsString \<Rightarrow> jsString" where
  "trim s = rev (dropWhile isSpace (rev (dropWhile isSpace s)))"

definition punct :: "unicode \<Rightarrow> codePoint \<Rightarrow> bool" where
  "punct U c = (\<not> isLetter U c \<and> \<not> isNumber U c \<and> \<not> isSpaceCp c)"

definition normalize :: "unicode \<Rightarrow> jsString \<Rightarrow> jsString" where
  "normalize U text =
     trim (replaceRuns isSpace 0x20
             (units (replaceRuns (punct U) (Unit 0x20)
                       (codePoints (crlfToLf (toLowerCase U text))))))"

text \<open>\<open>String.prototype.slice(a, b)\<close> on integer arguments.\<close>

definition slice :: "jsString \<Rightarrow> int \<Rightarrow> int \<Rightarrow> jsString" where
  "slice s a b =
     (let n = int (length s);
          from = (if a < 0 then max (n + a) 0 else min a n);
          to = (if b < 0 then max (n + b) 0 else min b n)
      in take (nat (to - from)) (drop (nat from) s))"

text \<open>
  Two facts of the Unicode data, as properties of \<open>U\<close>. The code points of a lowercased
  string have no lowercase mapping, and \<open>toLowerCase\<close> changes only code points that have
  one: a string made of such code points and of spaces is its own lowercasing. A surrogate on
  its own has the general category \<open>Cs\<close>: it is neither in \<open>\p{L}\<close> nor in \<open>\p{N}\<close>.
\<close>

definition lowercaseStable :: "unicode \<Rightarrow> bool" where
  "lowercaseStable U =
     (\<forall>s t. set (codePoints t) \<subseteq> insert (Unit 0x20) (set (codePoints (toLowerCase U s))) \<longrightarrow>
            toLowerCase U t = t)"

definition surrogatesUnclassified :: "unicode \<Rightarrow> bool" where
  "surrogatesUnclassified U =
     (\<forall>u. isHigh u \<or> isLow u \<longrightarrow> \<not> isLetter U (Unit u) \<and> \<not> isNumber U (Unit u))"

text \<open>
  A list of code points with whole surrogate pairs and no surrogate on its own: reading its
  units gives it back.
\<close>

definition wellFormed :: "codePoint list \<Rightarrow> bool" where
  "wellFormed cs =
     list_all (\<lambda>c. case c of Unit u \<Rightarrow> \<not> isHigh u \<and> \<not> isLow u | Pair h l \<Rightarrow> isHigh h \<and> isLow l) cs"

section \<open>K-grams and Winnowing\<close>

record Fingerprint =
  hash :: int
  pos :: int

text \<open>A k-gram \<open>{gram, pos}\<close> and a hashed k-gram \<open>{h, pos}\<close> are pairs.\<close>

definition makeKgrams :: "unicode \<Rightarrow> jsString \<Rightarrow> int \<Rightarrow> (jsString \<times> int) list" where
  "makeKgrams U text k =
     (let t = normalize U text
      in if int (length t) < k then []
         else map (\<lambda>i. (slice t (int i) (int i + k), int i))
                  [0 ..< nat (int (length t) - k + 1)])"

text \<open>
  \<open>hash64\<close> is the first eight bytes of the SHA-1 digest of the gram, from Node's
  \<open>crypto\<close> module. It is a parameter \<open>h64\<close> of every function that hashes.
\<close>

definition windowMin :: "(int \<times> int) list \<Rightarrow> nat \<Rightarrow> nat \<Rightarrow> int \<times> int" where
  \<comment> \<open>the inner loop: \<open>min = hashes[i]\<close>, then \<open>j = i, ..., i + windowSize - 1\<close>\<close>
  "windowMin hashes i windowSize =
     foldl (\<lambda>m cur. if fst cur < fst m then cur else m) (hashes ! i)
           (take windowSize (drop i hashes))"

record winnow_state =
  fps :: "Fingerprint list"
  lastPickedPos :: int
  lastPickedHash :: "int option"

definition pick :: "winnow_state \<Rightarrow> int \<times> int \<Rightarrow> winnow_state" where
  "pick st m =
     (if snd m \<noteq> lastPickedPos st \<or> Some (fst m) \<noteq> lastPickedHash st
      then \<lparr>fps = fps st @ [\<lparr>hash = fst m, pos = snd m\<rparr>],
            lastPickedPos = snd m, lastPickedHash = Some (fst m)\<rparr>
      else st)"

definition winnowHashes :: "(int \<times> int) list \<Rightarrow> int \<Rightarrow> Fingerprint list" where
  "winnowHashes hashes w =
     (let windowSize = max 1 w
      in fps (foldl (\<lambda>st i. pick st (windowMin hashes i (nat windowSize)))
                    \<lparr>fps = [], lastPickedPos = - 1, lastPickedHash = None\<rparr>
                    [0 ..< nat (int (length hashes) - windowSize + 1)]))"

definition winnow ::
  "unicode \<Rightarrow> (jsString \<Rightarrow> int) \<Rightarrow> jsString \<Rightarrow> int \<Rightarrow> int \<Rightarrow> Fingerprint list" where
  "winnow U h64 text k w =
     (let grams = makeKgrams U text k
      in if length grams = 0 then []
         else winnowHashes (map (\<lambda>g. (h64 (fst g), snd g)) grams) w)"

text \<open>
  A \<open>Set\<close> of strings, in insertion order. The keys are \<open>hash.toString()\<close>, the decimal
  numeral of the integer, which is injective: the model keeps the integer.
\<close>

definition jsSet :: "'a list \<Rightarrow> 'a list" where
  "jsSet xs = foldl (\<lambda>s x. if x \<in> set s then s else s @ [x]) [] xs"

text \<open>
  A \<open>number\<close> is an IEEE 754 double. The model keeps its exact value, a rational, and
  rounds the result of a division or a multiplication to the nearest double, ties to the even
  mantissa: \<open>fl\<close>. Overflow and subnormal numbers are left out: the numbers of the program
  are quotients and products of lengths, counts and positions. \<open>Number(x)\<close> of a decimal
  column is \<open>fl x\<close>.
\<close>

function bitLength :: "int \<Rightarrow> int" where
  "bitLength n = (if n \<le> 0 then 0 else 1 + bitLength (n div 2))"
  by pat_completeness auto
termination
  by (relation "measure nat") auto

definition pow2 :: "int \<Rightarrow> rat" where
  "pow2 e = (if 0 \<le> e then 2 ^ nat e else 1 / 2 ^ nat (- e))"

definition exponent :: "rat \<Rightarrow> int" where
  \<comment> \<open>of a positive number: the \<open>e\<close> with \<open>2\<^sup>e \<le> x < 2\<^sup>e\<^sup>+\<^sup>1\<close>\<close>
  "exponent x = (if 1 \<le> x then bitLength \<lfloor>x\<rfloor> - 1 else - bitLength (\<lceil>1 / x\<rceil> - 1))"

definition roundHalfEven :: "rat \<Rightarrow> int" where
  "roundHalfEven m =
     (let f = \<lfloor>m\<rfloor>; d = m - of_int f
      in if d < 1 / 2 then f else if 1 / 2 < d then f + 1 else if even f then f else f + 1)"

definition fl :: "rat \<Rightarrow> rat" where
  \<comment> \<open>53 bits of mantissa\<close>
  "fl x =
     (if x = 0 then 0
      else let a = \<bar>x\<bar>; ulp = pow2 (exponent a - 52)
           in sgn x * of_int (roundHalfEven (a / ulp)) * ulp)"

definition fingerprintSimilarity :: "Fingerprint list \<Rightarrow> Fingerprint list \<Rightarrow> rat" where
  "fingerprintSimilarity a b =
     (if length a = 0 \<or> length b = 0 then 0
      else let setA = jsSet (map hash a);
               setB = jsSet (map hash b);
               inter = length (filter (\<lambda>x. x \<in> set setB) setA);
               union = int (length setA) + int (length setB) - int inter
           in if union = 0 then 0 else fl (rat_of_int (int inter) / rat_of_int union))"

section \<open>MinHash and LSH\<close>

definition bigintRem :: "int \<Rightarrow> int \<Rightarrow> int" where
  \<comment> \<open>\<open>x % m\<close> on BigInt: the remainder has the sign of \<open>x\<close>\<close>
  "bigintRem x m = sgn x * (\<bar>x\<bar> mod \<bar>m\<bar>)"

definition modBig :: "int \<Rightarrow> int \<Rightarrow> int" where
  "modBig x m = (let r = bigintRem x m in if r \<ge> 0 then r else r + m)"

definition PRIME :: int where
  "PRIME = 2305843009213693951"

definition hashToInt61 :: "int \<Rightarrow> int" where
  "hashToInt61 h = modBig h PRIME"

definition permA :: "nat \<Rightarrow> int" where
  "permA i = 1 + (int i * 7919) mod 100000"

definition permB :: "nat \<Rightarrow> int" where
  "permB i = 1 + (int i * 104729) mod 100000"

definition minhashSignature ::
  "unicode \<Rightarrow> (jsString \<Rightarrow> int) \<Rightarrow> jsString \<Rightarrow> int \<Rightarrow> nat \<Rightarrow> int list" where
  "minhashSignature U h64 text k numPerm =
     (let grams = makeKgrams U text k;
          items = jsSet (map (\<lambda>g. hashToInt61 (h64 (fst g))) grams)
      in if length items = 0 then replicate numPerm PRIME
         else map (\<lambda>i. foldl (\<lambda>min x. let v = modBig (permA i * x + permB i) PRIME
                                        in if v < min then v else min)
                               PRIME items)
                  [0 ..< numPerm])"

function decimal :: "int \<Rightarrow> string" where
  \<comment> \<open>the decimal numeral of a non-negative integer\<close>
  "decimal n = (if n < 10 then [char_of (48 + n)] else decimal (n div 10) @ [char_of (48 + n mod 10)])"
  by pat_completeness auto
termination
  by (relation "measure nat") auto

definition toString :: "int \<Rightarrow> string" where
  "toString x = (if x < 0 then CHR ''-'' # decimal (- x) else decimal x)"

fun join :: "string \<Rightarrow> string list \<Rightarrow> string" where
  "join sep [] = []"
| "join sep [x] = x"
| "join sep (x # y # xs) = x @ sep @ join sep (y # xs)"

text \<open>
  The band hash is the hexadecimal SHA-1 digest of \<open>b:slice\<close>, from Node's \<open>crypto\<close>
  module: the parameter \<open>sha1hex\<close>.
\<close>

definition lshBuckets :: "(string \<Rightarrow> string) \<Rightarrow> int list \<Rightarrow> nat \<Rightarrow> string list" where
  "lshBuckets sha1hex sig bands =
     (let r = length sig div bands
      in if r \<le> 0 then []
         else map (\<lambda>b. let start = b * r;
                            end = start + r;
                            slice = join ''-'' (map toString (take (end - start) (drop start sig)));
                            bandHash = sha1hex (decimal (int b) @ '':'' @ slice)
                        in decimal (int b) @ '':'' @ bandHash)
                  [0 ..< bands])"

definition estimateMinhashSim :: "int list \<Rightarrow> int list \<Rightarrow> rat" where
  "estimateMinhashSim sigA sigB =
     (if length sigA = 0 \<or> length sigB = 0 then 0
      else let n = min (length sigA) (length sigB);
               same = length (filter (\<lambda>i. sigA ! i = sigB ! i) [0 ..< n])
           in fl (rat_of_int (int same) / rat_of_int (int n)))"

section \<open>Match spans\<close>

record raw_match =
  mhash :: int
  aPos :: int
  bPos :: int

record cur_span =
  docStart :: int
  docEnd :: int
  srcStart :: int
  srcEnd :: int
  curHash :: int

record MatchSpan =
  doc_span_start :: int
  doc_span_end :: int
  src_span_start :: int
  src_span_end :: int
  match_score :: rat
  snippet_hash :: int

definition buildMapB :: "Fingerprint list \<Rightarrow> (int \<rightharpoonup> int list)" where
  "buildMapB fpB =
     foldl (\<lambda>mapB x. mapB(hash x \<mapsto> (case mapB (hash x) of None \<Rightarrow> [] | Some arr \<Rightarrow> arr) @ [pos x]))
           Map.empty fpB"

definition rawMatches :: "Fingerprint list \<Rightarrow> (int \<rightharpoonup> int list) \<Rightarrow> raw_match list" where
  "rawMatches fpA mapB =
     concat (map (\<lambda>a. case mapB (hash a) of
                         None \<Rightarrow> []
                       | Some [] \<Rightarrow> []
                       | Some (b # _) \<Rightarrow> [\<lparr>mhash = hash a, aPos = pos a, bPos = b\<rparr>]) fpA)"

definition openSpan :: "int \<Rightarrow> raw_match \<Rightarrow> cur_span" where
  "openSpan k m = \<lparr>docStart = aPos m, docEnd = aPos m + k, srcStart = bPos m,
                   srcEnd = bPos m + k, curHash = mhash m\<rparr>"

definition sweep :: "int \<Rightarrow> cur_span list \<times> cur_span \<Rightarrow> raw_match \<Rightarrow> cur_span list \<times> cur_span" where
  \<comment> \<open>one turn of the grouping loop on the state \<open>(spans, cur)\<close>\<close>
  "sweep k st m =
     (let spans = fst st; cur = snd st
      in if aPos m \<le> docEnd cur + k
         then (spans, cur\<lparr>docEnd := aPos m + k, srcEnd := bPos m + k\<rparr>)
         else (spans @ [cur], openSpan k m))"

definition groupSpans :: "int \<Rightarrow> raw_match list \<Rightarrow> cur_span list" where
  \<comment> \<open>on a non-empty list of sorted matches\<close>
  "groupSpans k matches =
     (let st = foldl (sweep k) ([], openSpan k (hd matches)) (tl matches)
      in fst st @ [snd st])"

text \<open>
  \<open>matches.sort((x, y) => x.aPos - y.aPos)\<close> is a stable sort by \<open>aPos\<close>, as
  \<^const>\<open>sort_key\<close> is. The score is for \<open>k \<noteq> 0\<close>, where the quotient is a number.
  The map key and \<open>snippet_hash\<close> are the decimal numeral of the hash: the model keeps the
  integer.
\<close>

definition buildMatchSpans :: "Fingerprint list \<Rightarrow> Fingerprint list \<Rightarrow> int \<Rightarrow> MatchSpan list" where
  "buildMatchSpans fpA fpB k =
     (let mapB = buildMapB fpB;
          matches = rawMatches fpA mapB
      in if length matches = 0 then []
         else let spans = groupSpans k (sort_key aPos matches);
                  docLen = (if length fpA = 0 then 1 else int (length fpA))
              in map (\<lambda>s. \<lparr>doc_span_start = docStart s,
                            doc_span_end = docEnd s,
                            src_span_start = srcStart s,
                            src_span_end = srcEnd s,
                            match_score = min 1 (fl (rat_of_int (docEnd s - docStart s) / rat_of_int (docLen * k))),
                            snippet_hash = curHash s\<rparr>) spans)"

section \<open>The check run: \<open>POST /api/checks\<close>\<close>

text \<open>
  The handler from the point where the active parameters and the caller's document row are
  loaded. The file system is a map from paths to contents, undefined where
  \<open>readFileSync\<close> throws. The database is the record of the tables the handler touches;
  an inserted row takes the next free id. The audit log is left out, and so is a failing
  query, on which the handler rolls the transaction back and answers 500.
\<close>

record corpus_ref =
  id_corpus :: int
  title :: string

record corpus_document = corpus_ref +
  path_text :: "string option"
  is_active :: bool

record candidate = corpus_ref +
  approx :: rat

record match_row = MatchSpan +
  source_type :: string
  source_id :: int

record check_match = match_row +
  result_id :: int

text \<open>The fields \<open>k\<close> and \<open>w\<close> of a parameter row are \<open>param_k\<close> and \<open>param_w\<close>.\<close>

record algoritma_params =
  id_params :: int
  param_k :: int
  param_w :: int
  threshold :: rat

record summary =
  params :: algoritma_params
  candidates :: "candidate list"
  best_similarity :: rat

record check_request =
  id_check :: int
  status :: string

record check_result =
  id_result :: int
  check_id :: int
  similarity :: rat
  summary_json :: summary

record database =
  corpus_documents :: "corpus_document list"
  check_requests :: "check_request list"
  check_results :: "check_result list"
  check_matches :: "check_match list"

datatype response =
  BadRequest string
| Created int int rat rat nat nat
  \<comment> \<open>\<open>check_id, result_id, similarity, threshold, candidates_count, matches_inserted\<close>\<close>

definition readTextSafe :: "(string \<rightharpoonup> jsString) \<Rightarrow> string option \<Rightarrow> jsString" where
  "readTextSafe fs p =
     (case p of None \<Rightarrow> []
      | Some q \<Rightarrow> (case fs q of None \<Rightarrow> [] | Some text \<Rightarrow> text))"

definition selectActiveCorpus :: "corpus_document list \<Rightarrow> corpus_document list" where
  \<comment> \<open>\<open>WHERE is_active = 1 AND path_text IS NOT NULL ORDER BY id_corpus DESC\<close>\<close>
  "selectActiveCorpus tbl =
     sort_key (\<lambda>c. - id_corpus c) (filter (\<lambda>c. is_active c \<and> path_text c \<noteq> None) tbl)"

definition nextId :: "int list \<Rightarrow> int" where
  "nextId ids = foldl max 0 ids + 1"

definition arraySlice0 :: "'a list \<Rightarrow> int \<Rightarrow> 'a list" where
  \<comment> \<open>\<open>Array.prototype.slice(0, e)\<close>\<close>
  "arraySlice0 xs e =
     (let n = int (length xs)
      in take (nat (if e < 0 then max (n + e) 0 else min e n)) xs)"

definition tooShort :: "jsString \<Rightarrow> int \<Rightarrow> bool" where
  \<comment> \<open>\<open>!text || text.trim().length < k\<close>\<close>
  "tooShort text k = (text = [] \<or> int (length (trim text)) < k)"

definition scoreCandidates ::
  "unicode \<Rightarrow> (jsString \<Rightarrow> int) \<Rightarrow> (string \<Rightarrow> string) \<Rightarrow> (string \<rightharpoonup> jsString) \<Rightarrow> int \<Rightarrow> int list \<Rightarrow>
   corpus_document list \<Rightarrow> candidate list" where
  "scoreCandidates U h64 sha1hex fs k sigDoc corpusRows =
     (let bucketsDoc = jsSet (lshBuckets sha1hex sigDoc 20)
      in concat (map (\<lambda>c.
           let cText = readTextSafe fs (path_text c)
           in if tooShort cText k then []
              else let sigC = minhashSignature U h64 cText k 100;
                       bucketsC = lshBuckets sha1hex sigC 20;
                       share = list_ex (\<lambda>b. b \<in> set bucketsDoc) bucketsC
                   in if \<not> share then []
                      else [\<lparr>id_corpus = id_corpus c, title = title c,
                             approx = estimateMinhashSim sigDoc sigC\<rparr>]) corpusRows))"

definition verifyCandidate ::
  "unicode \<Rightarrow> (jsString \<Rightarrow> int) \<Rightarrow> (string \<rightharpoonup> jsString) \<Rightarrow> algoritma_params \<Rightarrow> Fingerprint list \<Rightarrow>
   corpus_document list \<Rightarrow> match_row list \<times> rat \<Rightarrow> candidate \<Rightarrow> match_row list \<times> rat" where
  \<comment> \<open>one turn of the verification loop on the state \<open>(matchesToInsert, bestSim)\<close>\<close>
  "verifyCandidate U h64 fs ps fpDoc corpusRows st cand =
     (case find (\<lambda>x. id_corpus x = id_corpus cand) corpusRows of
        None \<Rightarrow> st
      | Some c \<Rightarrow>
          let cText = readTextSafe fs (path_text c);
              fpC = winnow U h64 cText (param_k ps) (param_w ps);
              sim = fingerprintSimilarity fpDoc fpC;
              bestSim = (if sim > snd st then sim else snd st)
          in if sim \<ge> fl (threshold ps)
             then (fst st @
                   map (\<lambda>s. \<lparr>doc_span_start = doc_span_start s,
                              doc_span_end = doc_span_end s,
                              src_span_start = src_span_start s,
                              src_span_end = src_span_end s,
                              match_score = sim,
                              snippet_hash = snippet_hash s,
                              source_type = ''corpus'',
                              source_id = id_corpus cand\<rparr>)
                       (arraySlice0 (buildMatchSpans fpDoc fpC (param_k ps)) 50), bestSim)
             else (fst st, bestSim))"

definition setStatus :: "database \<Rightarrow> int \<Rightarrow> string \<Rightarrow> database" where
  \<comment> \<open>\<open>UPDATE check_request SET status = ? WHERE id_check = ?\<close>\<close>
  "setStatus db i st =
     db\<lparr>check_requests := map (\<lambda>r. if id_check r = i then r\<lparr>status := st\<rparr> else r)
                                (check_requests db)\<rparr>"

definition selectCandidates ::
  "unicode \<Rightarrow> (jsString \<Rightarrow> int) \<Rightarrow> (string \<Rightarrow> string) \<Rightarrow> (string \<rightharpoonup> jsString) \<Rightarrow> algoritma_params \<Rightarrow>
   jsString \<Rightarrow> corpus_document list \<Rightarrow> int \<Rightarrow> candidate list" where
  \<comment> \<open>MinHash and LSH candidate selection, then the sort by \<open>b.approx - a.approx\<close>
      (stable) and \<open>slice(0, maxCandidates)\<close>\<close>
  "selectCandidates U h64 sha1hex fs ps docText corpusRows maxCandidates =
     (let sigDoc = minhashSignature U h64 docText (param_k ps) 100;
          scoredCandidates = scoreCandidates U h64 sha1hex fs (param_k ps) sigDoc corpusRows
      in arraySlice0 (sort_key (\<lambda>c. - approx c) scoredCandidates) maxCandidates)"

definition verifyCandidates ::
  "unicode \<Rightarrow> (jsString \<Rightarrow> int) \<Rightarrow> (string \<rightharpoonup> jsString) \<Rightarrow> algoritma_params \<Rightarrow> jsString \<Rightarrow>
   corpus_document list \<Rightarrow> candidate list \<Rightarrow> match_row list \<times> rat" where
  \<comment> \<open>Winnowing verification: \<open>(matchesToInsert, bestSim)\<close> after the loop\<close>
  "verifyCandidates U h64 fs ps docText corpusRows cands =
     (let fpDoc = winnow U h64 docText (param_k ps) (param_w ps)
      in foldl (verifyCandidate U h64 fs ps fpDoc corpusRows) ([], 0) cands)"

definition tooShortMessage :: string where
  "tooShortMessage = ''Document text is empty or too short to check''"

definition postCheck ::
  "unicode \<Rightarrow> (jsString \<Rightarrow> int) \<Rightarrow> (string \<Rightarrow> string) \<Rightarrow> (string \<rightharpoonup> jsString) \<Rightarrow> database \<Rightarrow>
   algoritma_params \<Rightarrow> string option \<Rightarrow> int option \<Rightarrow> database \<times> response" where
  "postCheck U h64 sha1hex fs db ps docPath max_candidates =
     (let maxCandidates = min (case max_candidates of None \<Rightarrow> 10 | Some n \<Rightarrow> n) 50;
          checkId = nextId (map id_check (check_requests db));
          db1 = db\<lparr>check_requests := check_requests db @
                       [\<lparr>id_check = checkId, status = ''processing''\<rparr>]\<rparr>;
          docText = readTextSafe fs docPath
      in if tooShort docText (param_k ps)
         then (setStatus db1 checkId ''failed'', BadRequest tooShortMessage)
         else
           let corpusRows = selectActiveCorpus (corpus_documents db1);
               cands = selectCandidates U h64 sha1hex fs ps docText corpusRows maxCandidates;
               verified = verifyCandidates U h64 fs ps docText corpusRows cands;
               matchesToInsert = fst verified;
               bestSim = snd verified;
               similarityPercent = fl (rat_of_int \<lfloor>fl (bestSim * 10000) + 1 / 2\<rfloor> / 100);
               resultId = nextId (map id_result (check_results db1));
               db2 = db1\<lparr>check_results := check_results db1 @
                             [\<lparr>id_result = resultId, check_id = checkId,
                               similarity = similarityPercent,
                               summary_json = \<lparr>params = ps\<lparr>threshold := fl (threshold ps)\<rparr>,
                                               candidates = cands,
                                                best_similarity = bestSim\<rparr>\<rparr>]\<rparr>;
               db3 = db2\<lparr>check_matches := check_matches db2 @
                             map (\<lambda>m. match_row.extend m \<lparr>result_id = resultId\<rparr>)
                                 matchesToInsert\<rparr>
           in (setStatus db3 checkId ''done'',
               Created checkId resultId similarityPercent (fl (threshold ps))
                       (length cands) (length matchesToInsert)))"

text \<open>
  What a run leaves behind: the request row it inserted, the result rows and the match rows
  it added.
\<close>

definition requestOf :: "database \<times> response \<Rightarrow> check_request" where
  "requestOf r = last (check_requests (fst r))"

definition newResults :: "database \<Rightarrow> database \<times> response \<Rightarrow> check_result list" where
  "newResults db r = drop (length (check_results db)) (check_results (fst r))"

definition newMatches :: "database \<Rightarrow> database \<times> response \<Rightarrow> check_match list" where
  "newMatches db r = drop (length (check_matches db)) (check_matches (fst r))"

definition scanOrder :: "candidate \<Rightarrow> candidate \<Rightarrow> bool" where
  \<comment> \<open>\<open>a\<close> before \<open>b\<close>: higher \<open>approx\<close> first, equal \<open>approx\<close> by descending corpus id\<close>
  "scanOrder a b = (approx b < approx a \<or> (approx a = approx b \<and> id_corpus b < id_corpus a))"

definition ascendingIdOrder :: "candidate \<Rightarrow> candidate \<Rightarrow> bool" where
  \<comment> \<open>\<open>a\<close> before \<open>b\<close>: higher \<open>approx\<close> first, equal \<open>approx\<close> by ascending corpus id\<close>
  "ascendingIdOrder a b = (approx b < approx a \<or> (approx a = approx b \<and> id_corpus a < id_corpus b))"

definition unreadable :: "(string \<rightharpoonup> jsString) \<Rightarrow> corpus_document \<Rightarrow> bool" where
  \<comment> \<open>the row has a path and \<open>readFileSync\<close> throws on it\<close>
  "unreadable fs c = (case path_text c of None \<Rightarrow> False | Some p \<Rightarrow> fs p = None)"

text \<open>
  Sample data for the worked examples. The texts of the examples are ASCII. \<open>latin1\<close> is
  the Unicode data on the code points below 256, which is all the examples use: a code point
  above is left alone by its lowercasing and is in neither class. \<open>sha1First8\<close> is
  \<open>hash64\<close> on the grams the examples hash, \<open>a\<close> and \<open>b\<close>: the first eight bytes of
  their SHA-1 digests. The band hash of the examples is the identity, an injective stand-in
  for the digest: the examples compare the buckets of equal signatures only.
\<close>

definition ascii :: "string \<Rightarrow> jsString" where
  "ascii s = map of_char s"

definition lowerUnit :: "16 word \<Rightarrow> 16 word" where
  "lowerUnit u =
     (if (0x41 \<le> u \<and> u \<le> 0x5A) \<or> (0xC0 \<le> u \<and> u \<le> 0xDE \<and> u \<noteq> 0xD7) then u + 0x20 else u)"

definition latin1Letter :: "16 word \<Rightarrow> bool" where
  "latin1Letter u =
     ((0x41 \<le> u \<and> u \<le> 0x5A) \<or> (0x61 \<le> u \<and> u \<le> 0x7A) \<or> u = 0xAA \<or> u = 0xB5 \<or> u = 0xBA \<or>
      (0xC0 \<le> u \<and> u \<le> 0xD6) \<or> (0xD8 \<le> u \<and> u \<le> 0xF6) \<or> (0xF8 \<le> u \<and> u \<le> 0xFF))"

definition latin1Number :: "16 word \<Rightarrow> bool" where
  "latin1Number u =
     ((0x30 \<le> u \<and> u \<le> 0x39) \<or> u = 0xB2 \<or> u = 0xB3 \<or> u = 0xB9 \<or> (0xBC \<le> u \<and> u \<le> 0xBE))"

definition latin1 :: unicode where
  "latin1 = \<lparr>toLowerCase = map lowerUnit,
             isLetter = (\<lambda>c. case c of Unit u \<Rightarrow> latin1Letter u | Pair h l \<Rightarrow> False),
             isNumber = (\<lambda>c. case c of Unit u \<Rightarrow> latin1Number u | Pair h l \<Rightarrow> False)\<rparr>"

text \<open>
  A second sample, with a lowercasing that changes the length and looks at the context:
  U+0130 becomes \<open>i\<close> and the combining dot U+0307, which is a mark and not a letter, and
  U+03A3 becomes the final sigma U+03C2 after a cased letter and before none, U+03C3
  elsewhere. The neighbouring unit stands for the context of the final sigma rule.
\<close>

definition casedUnit :: "16 word \<Rightarrow> bool" where
  "casedUnit u = (latin1Letter u \<or> u = 0x130 \<or> u = 0x3A3 \<or> u = 0x3C2 \<or> u = 0x3C3)"

fun lowerAfter :: "bool \<Rightarrow> jsString \<Rightarrow> jsString" where
  "lowerAfter cased [] = []"
| "lowerAfter cased (u # s) =
     (if u = 0x130 then 0x69 # 0x307 # lowerAfter True s
      else if u = 0x3A3
        then (if cased \<and> \<not> (s \<noteq> [] \<and> casedUnit (hd s)) then 0x3C2 else 0x3C3) #
             lowerAfter True s
      else lowerUnit u # lowerAfter (casedUnit u) s)"

definition sampleUnicode :: unicode where
  "sampleUnicode =
     \<lparr>toLowerCase = lowerAfter False,
      isLetter = (\<lambda>c. case c of Unit u \<Rightarrow> casedUnit u | Pair h l \<Rightarrow> False),
      isNumber = (\<lambda>c. case c of Unit u \<Rightarrow> latin1Number u | Pair h l \<Rightarrow> False)\<rparr>"

definition lowered :: "16 word \<Rightarrow> bool" where
  \<comment> \<open>a unit that the sample lowercasing leaves alone\<close>
  "lowered u = (lowerUnit u = u \<and> u \<noteq> 0x130 \<and> u \<noteq> 0x3A3)"

definition sha1First8 :: "jsString \<Rightarrow> int" where
  "sha1First8 s =
     (if s = [0x61] then 0x86f7e437faa5a7fc
      else if s = [0x62] then 0xe9d71f5ee7c92d6d
      else 0)"

definition emptyDb :: "corpus_document list \<Rightarrow> database" where
  "emptyDb tbl = \<lparr>corpus_documents = tbl, check_requests = [], check_results = [],
                  check_matches = []\<rparr>"

definition sampleParams :: "int \<Rightarrow> int \<Rightarrow> rat \<Rightarrow> algoritma_params" where
  "sampleParams kk ww th = \<lparr>id_params = 1, param_k = kk, param_w = ww, threshold = th\<rparr>"

definition sampleRow :: "int \<Rightarrow> string \<Rightarrow> corpus_document" where
  "sampleRow i p = \<lparr>id_corpus = i, title = ''t'', path_text = Some p, is_active = True\<rparr>"

definition sampleFs :: "string \<rightharpoonup> jsString" where
  \<comment> \<open>the document \<open>d\<close>, two corpus texts equal to it, a document whose punctuation
      normalizes away; every other path is missing\<close>
  "sampleFs = [''d'' \<mapsto> ascii ''abbabbb'', ''c1'' \<mapsto> ascii ''abbabbb'',
               ''c2'' \<mapsto> ascii ''abbabbb'', ''p'' \<mapsto> ascii ''a,,,,b'']"

section \<open>Winnowing with fewer k-grams than the window\<close>

lemma winnowHashes_short:
  assumes "int (length hashes) < max 1 w"
  shows "winnowHashes hashes w = []"
proof -
  have "nat (int (length hashes) - max 1 w + 1) = 0"
    using assms by simp
  then show ?thesis
    by (simp add: winnowHashes_def Let_def)
qed

text \<open>
  Claim C10. When the text has at least one k-gram but fewer than \<open>max(1, w)\<close> of them, no
  window fits, so \<open>winnow\<close> returns the empty sequence; \<open>fingerprintSimilarity\<close> of
  the fingerprints of two such identical texts is then 0, not 1.
\<close>

theorem winnow_fewer_grams_than_window:
  assumes "0 < length (makeKgrams U T k)"
    and "int (length (makeKgrams U T k)) < max 1 w"
  shows "winnow U h64 T k w = [] \<and>
         fingerprintSimilarity (winnow U h64 T k w) (winnow U h64 T k w) = 0"
proof -
  have "winnow U h64 T k w = []"
    using assms by (simp add: winnow_def Let_def winnowHashes_short)
  then show ?thesis
    by (simp add: fingerprintSimilarity_def)
qed

theorem winnow_fewer_grams_than_window_witness:
  "0 < length (makeKgrams latin1 (ascii ''ab'') 1) \<and> int (length (makeKgrams latin1 (ascii ''ab'') 1)) < max 1 5 \<and>
   winnow latin1 sha1First8 (ascii ''ab'') 1 5 = [] \<and>
   fingerprintSimilarity (winnow latin1 sha1First8 (ascii ''ab'') 1 5) (winnow latin1 sha1First8 (ascii ''ab'') 1 5) = 0"
proof -
  have g: "length (makeKgrams latin1 (ascii ''ab'') 1) = 2"
    by code_simp
  have h1: "0 < length (makeKgrams latin1 (ascii ''ab'') 1)"
    by (simp add: g)
  have h2: "int (length (makeKgrams latin1 (ascii ''ab'') 1)) < max 1 5"
    by (simp add: g)
  from winnow_fewer_grams_than_window [OF h1 h2, of sha1First8] h1 h2
  show ?thesis by blast
qed

section \<open>Normalization is idempotent\<close>

lemma isSpace_not_surrogate: "isSpace u \<Longrightarrow> \<not> isHigh u \<and> \<not> isLow u"
  by (auto simp: isSpace_def isHigh_def isLow_def word_le_nat_alt)

lemma isSpace_blank: "isSpace 0x20"
  by (simp add: isSpace_def)

lemma codePoints_Cons:
  "\<not> isHigh u \<or> s = [] \<or> \<not> isLow (hd s) \<Longrightarrow> codePoints (u # s) = Unit u # codePoints s"
  by (cases s) auto

lemma codePoints_pairs: "Pair h l \<in> set (codePoints s) \<Longrightarrow> isHigh h \<and> isLow l"
  by (induction s rule: codePoints.induct) (auto split: if_splits)

lemma units_codePoints: "units (codePoints s) = s"
  by (induction s rule: codePoints.induct) (auto simp: units_def)

lemma units_Cons: "units (c # cs) = unitsOf c @ units cs"
  by (simp add: units_def)

lemma units_append: "units (cs @ ds) = units cs @ units ds"
  by (simp add: units_def)

lemma wellFormed_simps:
  "wellFormed []"
  "wellFormed (Unit u # cs) \<longleftrightarrow> \<not> isHigh u \<and> \<not> isLow u \<and> wellFormed cs"
  "wellFormed (Pair h l # cs) \<longleftrightarrow> isHigh h \<and> isLow l \<and> wellFormed cs"
  "wellFormed (cs @ ds) \<longleftrightarrow> wellFormed cs \<and> wellFormed ds"
  by (simp_all add: wellFormed_def)

lemma wellFormed_subset: "wellFormed cs \<Longrightarrow> set ds \<subseteq> set cs \<Longrightarrow> wellFormed ds"
  by (auto simp: wellFormed_def list_all_iff)

lemma codePoints_units: "wellFormed cs \<Longrightarrow> codePoints (units cs) = cs"
proof (induction cs)
  case Nil
  then show ?case by (simp add: units_def)
next
  case (Cons c cs)
  then show ?case
    by (cases c) (simp_all add: wellFormed_simps units_Cons codePoints_Cons)
qed

lemma crlfToLf_Cons: "c \<noteq> 0x0D \<Longrightarrow> crlfToLf (c # s) = c # crlfToLf s"
  by (cases s) simp_all

lemma hd_crlfToLf: "s \<noteq> [] \<Longrightarrow> crlfToLf s \<noteq> [] \<and> (hd (crlfToLf s) = hd s \<or> hd (crlfToLf s) = 0x0A)"
  by (induction s rule: crlfToLf.induct) auto

lemma crlfToLf_codePoints: "set (codePoints (crlfToLf s)) \<subseteq> set (codePoints s)"
proof (induction "length s" arbitrary: s rule: less_induct)
  case less
  show ?case
  proof (cases s)
    case Nil
    then show ?thesis by simp
  next
    case (Cons c t)
    note s = Cons
    show ?thesis
    proof (cases t)
      case Nil
      with s show ?thesis by simp
    next
      case (Cons d r)
      note t = Cons
      have ih_r: "set (codePoints (crlfToLf r)) \<subseteq> set (codePoints r)"
        using less [of r] s t by simp
      have ih_t: "set (codePoints (crlfToLf t)) \<subseteq> set (codePoints t)"
        using less [of t] s by simp
      show ?thesis
      proof (cases "isHigh c \<and> isLow d")
        case True
        then have "c \<noteq> 0x0D" "d \<noteq> 0x0D"
          by (auto simp: isHigh_def isLow_def)
        then have "crlfToLf s = c # d # crlfToLf r"
          by (simp add: s t crlfToLf_Cons)
        with True ih_r show ?thesis
          by (auto simp: s t)
      next
        case False
        then have whole: "codePoints s = Unit c # codePoints t"
          by (simp add: s t)
        show ?thesis
        proof (cases "c = 0x0D \<and> d = 0x0A")
          case True
          then have "crlfToLf s = 0x0A # crlfToLf r"
            by (simp add: s t)
          moreover have "\<not> isHigh 0x0A"
            by (simp add: isHigh_def)
          ultimately have "codePoints (crlfToLf s) = Unit 0x0A # codePoints (crlfToLf r)"
            by (simp add: codePoints_Cons)
          moreover have "codePoints t = Unit 0x0A # codePoints r"
            using True by (simp add: t codePoints_Cons isHigh_def)
          ultimately show ?thesis
            using ih_r whole by auto
        next
          case no_crlf: False
          then have step: "crlfToLf s = c # crlfToLf t"
            by (auto simp: s t)
          have "\<not> isHigh c \<or> crlfToLf t = [] \<or> \<not> isLow (hd (crlfToLf t))"
          proof (cases "isHigh c")
            case True
            with False have "\<not> isLow d" by simp
            moreover have "\<not> isLow 0x0A"
              by (simp add: isLow_def)
            moreover have "hd (crlfToLf t) = d \<or> hd (crlfToLf t) = 0x0A"
              using hd_crlfToLf [of t] t by simp
            ultimately show ?thesis by auto
          next
            case False
            then show ?thesis by simp
          qed
          then have "codePoints (crlfToLf s) = Unit c # codePoints (crlfToLf t)"
            unfolding step by (rule codePoints_Cons)
          with ih_t whole show ?thesis
            by auto
        qed
      qed
    qed
  qed
qed

text \<open>
  The whitespace stages work on code units. On the units of a well-formed list of code points
  they do what they do on the code points, since no surrogate is whitespace.
\<close>

lemma dropWhile_units:
  "wellFormed cs \<Longrightarrow> dropWhile isSpace (units cs) = units (dropWhile isSpaceCp cs)"
proof (induction cs)
  case Nil
  then show ?case by (simp add: units_def)
next
  case (Cons c cs)
  show ?case
  proof (cases c)
    case (Unit u)
    with Cons show ?thesis
      by (simp add: units_Cons isSpaceCp_def wellFormed_simps)
  next
    case (Pair h l)
    with Cons.prems have "\<not> isSpace h"
      using isSpace_not_surrogate by (auto simp: wellFormed_simps)
    with Pair show ?thesis
      by (simp add: units_Cons isSpaceCp_def)
  qed
qed

lemma wellFormed_dropWhile: "wellFormed cs \<Longrightarrow> wellFormed (dropWhile C cs)"
  by (rule wellFormed_subset) (auto dest: set_dropWhileD)

lemma wellFormed_blank: "wellFormed [Unit 0x20]"
  by (simp add: wellFormed_def isHigh_def isLow_def)

lemma replaceRuns_set: "set (replaceRuns C b s) \<subseteq> insert b {c \<in> set s. \<not> C c}"
proof (induction C b s rule: replaceRuns.induct)
  case (1 C b)
  then show ?case by simp
next
  case (2 C b c s)
  then show ?case
    by (auto dest: set_dropWhileD)
qed

lemma wellFormed_replaceRuns:
  assumes "wellFormed cs"
  shows "wellFormed (replaceRuns C (Unit 0x20) cs)"
proof -
  have "set (replaceRuns C (Unit 0x20) cs) \<subseteq> set ([Unit 0x20] @ cs)"
    using replaceRuns_set [of C "Unit 0x20" cs] by auto
  moreover have "wellFormed ([Unit 0x20] @ cs)"
    using assms wellFormed_blank by (simp add: wellFormed_def)
  ultimately show ?thesis
    using wellFormed_subset by blast
qed

lemma replaceRuns_units:
  "wellFormed cs \<Longrightarrow>
   replaceRuns isSpace 0x20 (units cs) = units (replaceRuns isSpaceCp (Unit 0x20) cs)"
proof (induction isSpaceCp "Unit 0x20" cs rule: replaceRuns.induct)
  case 1
  then show ?case by (simp add: units_def)
next
  case (2 c cs)
  show ?case
  proof (cases c)
    case (Unit u)
    show ?thesis
    proof (cases "isSpace u")
      case True
      have "wellFormed (dropWhile isSpaceCp cs)"
        using "2.prems" by (simp add: Unit wellFormed_simps wellFormed_dropWhile)
      with True "2.hyps"(1) "2.prems" show ?thesis
        by (simp add: Unit units_Cons isSpaceCp_def dropWhile_units wellFormed_simps)
    next
      case False
      with "2.hyps"(2) "2.prems" show ?thesis
        by (simp add: Unit units_Cons isSpaceCp_def wellFormed_simps)
    qed
  next
    case (Pair h l)
    with "2.prems" have "\<not> isSpace h" "\<not> isSpace l"
      using isSpace_not_surrogate by (auto simp: wellFormed_simps)
    with "2.hyps"(2) "2.prems" show ?thesis
      by (simp add: Pair units_Cons isSpaceCp_def wellFormed_simps)
  qed
qed

lemma isSpaceCp_simps: "isSpaceCp (Unit u) = isSpace u" "isSpaceCp (Pair h l) = False"
  by (simp_all add: isSpaceCp_def)

lemma dropEnd_snoc:
  "rev (dropWhile C (rev (xs @ [x]))) = (if C x then rev (dropWhile C (rev xs)) else xs @ [x])"
  by simp

lemma dropEnd_units:
  "wellFormed cs \<Longrightarrow>
   rev (dropWhile isSpace (rev (units cs))) = units (rev (dropWhile isSpaceCp (rev cs)))"
proof (induction cs rule: rev_induct)
  case Nil
  then show ?case by (simp add: units_def)
next
  case (snoc c cs)
  then have ih: "rev (dropWhile isSpace (rev (units cs))) = units (rev (dropWhile isSpaceCp (rev cs)))"
    by (simp add: wellFormed_simps)
  have cp: "rev (dropWhile isSpaceCp (rev (cs @ [c]))) =
            (if isSpaceCp c then rev (dropWhile isSpaceCp (rev cs)) else cs @ [c])"
    by (rule dropEnd_snoc)
  show ?case
  proof (cases c)
    case (Unit u)
    have e: "units (cs @ [c]) = units cs @ [u]"
      by (simp add: Unit units_append units_def)
    have un: "rev (dropWhile isSpace (rev (units cs @ [u]))) =
          (if isSpace u then rev (dropWhile isSpace (rev (units cs))) else units cs @ [u])"
      by (rule dropEnd_snoc)
    show ?thesis
    proof (cases "isSpace u")
      case True
      then have "isSpaceCp c"
        by (simp add: Unit isSpaceCp_simps)
      with True show ?thesis
        unfolding cp e un by (simp only: if_True ih)
    next
      case False
      then have "\<not> isSpaceCp c"
        by (simp add: Unit isSpaceCp_simps)
      with False show ?thesis
        unfolding cp e un by (simp only: if_False e)
    qed
  next
    case (Pair h l)
    with snoc.prems have "\<not> isSpace l"
      using isSpace_not_surrogate by (auto simp: wellFormed_simps)
    moreover have e: "units (cs @ [c]) = (units cs @ [h]) @ [l]"
      by (simp add: Pair units_append units_def)
    moreover have "rev (dropWhile isSpace (rev ((units cs @ [h]) @ [l]))) =
          (if isSpace l then rev (dropWhile isSpace (rev (units cs @ [h]))) else (units cs @ [h]) @ [l])"
      by (rule dropEnd_snoc)
    ultimately show ?thesis
      unfolding cp by (simp only: Pair isSpaceCp_simps if_False)
  qed
qed


lemma replaceRuns_id: "\<forall>c \<in> set s. \<not> C c \<Longrightarrow> replaceRuns C b s = s"
  by (induction s) auto

lemma replaceRuns_hd:
  "s = [] \<or> \<not> C (hd s) \<Longrightarrow> replaceRuns C b s = [] \<or> \<not> C (hd (replaceRuns C b s))"
  by (cases s) auto

lemma replaceRuns_single:
  "C b \<Longrightarrow> successively (\<lambda>x y. \<not> (C x \<and> C y)) (replaceRuns C b s)"
proof (induction C b s rule: replaceRuns.induct)
  case (1 C b)
  then show ?case by simp
next
  case (2 C b c s)
  show ?case
  proof (cases "C c")
    case True
    have "dropWhile C s = [] \<or> \<not> C (hd (dropWhile C s))"
      using hd_dropWhile by blast
    then have "replaceRuns C b (dropWhile C s) = [] \<or> \<not> C (hd (replaceRuns C b (dropWhile C s)))"
      by (rule replaceRuns_hd)
    with True 2 show ?thesis
      by (cases "replaceRuns C b (dropWhile C s)") (auto simp: successively_Cons)
  next
    case False
    with 2 show ?thesis
      by (cases "replaceRuns C b s") (auto simp: successively_Cons)
  qed
qed

lemma replaceRuns_fixed:
  "\<forall>c \<in> set s. C c \<longrightarrow> c = b \<Longrightarrow> successively (\<lambda>x y. \<not> (C x \<and> C y)) s \<Longrightarrow>
   replaceRuns C b s = s"
proof (induction s)
  case Nil
  then show ?case by simp
next
  case (Cons c s)
  then have ih: "replaceRuns C b s = s"
    by (cases s) (auto simp: successively_Cons)
  show ?case
  proof (cases "C c")
    case True
    then have "s = [] \<or> \<not> C (hd s)"
      using Cons.prems(2) by (cases s) (auto simp: successively_Cons)
    then have "dropWhile C s = s"
      by (simp add: dropWhile_eq_self_iff)
    with True ih Cons.prems(1) show ?thesis by simp
  next
    case False
    with ih show ?thesis by simp
  qed
qed

lemma successively_dropWhile: "successively P s \<Longrightarrow> successively P (dropWhile Q s)"
proof (induction s)
  case Nil
  then show ?case by simp
next
  case (Cons a s)
  then show ?case by (cases s) (auto simp: successively_Cons)
qed

lemma trim_set: "set (trim s) \<subseteq> set s"
  by (auto simp: trim_def dest!: set_dropWhileD)

lemma successively_rev_sym:
  "successively (\<lambda>a b. \<not> (C a \<and> C b)) (rev s) = successively (\<lambda>a b. \<not> (C a \<and> C b)) s"
proof -
  have "(\<lambda>x y. \<not> (C y \<and> C x)) = (\<lambda>a b. \<not> (C a \<and> C b))"
    by (intro ext) blast
  then show ?thesis
    by (simp only: successively_rev)
qed

lemma trim_single:
  assumes "successively (\<lambda>a b. \<not> (C a \<and> C b)) s"
  shows "successively (\<lambda>a b. \<not> (C a \<and> C b)) (trim s)"
proof -
  have "successively (\<lambda>a b. \<not> (C a \<and> C b)) (dropWhile isSpace s)"
    using assms by (rule successively_dropWhile)
  then have "successively (\<lambda>a b. \<not> (C a \<and> C b)) (rev (dropWhile isSpace s))"
    by (simp only: successively_rev_sym)
  then have "successively (\<lambda>a b. \<not> (C a \<and> C b)) (dropWhile isSpace (rev (dropWhile isSpace s)))"
    by (rule successively_dropWhile)
  then show ?thesis
    by (simp only: trim_def successively_rev_sym)
qed

lemma trim_idem: "trim (trim s) = trim s"
proof -
  define u where "u = dropWhile isSpace s"
  define v where "v = dropWhile isSpace (rev u)"
  have t: "trim s = rev v"
    by (simp add: trim_def u_def v_def)
  have "dropWhile isSpace (rev v) = rev v"
  proof (cases "v = []")
    case True
    then show ?thesis by simp
  next
    case False
    then have ne: "rev u \<noteq> []"
      by (auto simp: v_def)
    obtain c where c: "c \<in> set (rev u)" "\<not> isSpace c"
      using False unfolding v_def by auto
    have "last v = last (rev u)"
      unfolding v_def using c by (rule dropWhile_last)
    also have "\<dots> = hd u"
      using ne by (simp add: last_rev)
    finally have "hd (rev v) = hd u"
      using False by (simp add: hd_rev)
    moreover have "\<not> isSpace (hd u)"
      using ne unfolding u_def by (simp add: hd_dropWhile)
    ultimately show ?thesis
      using False by (simp add: dropWhile_eq_self_iff)
  qed
  then have "trim (rev v) = rev (dropWhile isSpace v)"
    by (simp add: trim_def)
  also have "\<dots> = rev v"
    by (simp add: v_def)
  finally show ?thesis
    by (simp add: t)
qed

lemma trim_units:
  assumes "wellFormed cs"
  shows "trim (units cs) = units (rev (dropWhile isSpaceCp (rev (dropWhile isSpaceCp cs))))"
proof -
  have "wellFormed (dropWhile isSpaceCp cs)"
    using assms by (rule wellFormed_dropWhile)
  then show ?thesis
    by (simp add: trim_def dropWhile_units [OF assms] dropEnd_units)
qed

text \<open>
  Claim C9. Normalizing a normalized text changes nothing. The lowercasing and the classes
  \<open>\p{L}\<close> and \<open>\p{N}\<close> are the runtime's; two facts about them are used. A code point that
  a lowercased string contains has no lowercase mapping, and \<open>toLowerCase\<close> changes only
  code points that have one, in whatever context: a string made of code points of a lowercased
  string and of spaces is left alone. A lone surrogate is neither a letter nor a number.
\<close>

theorem normalize_idempotent:
  assumes stable: "lowercaseStable U" and surrogates: "surrogatesUnclassified U"
  shows "normalize U (normalize U x) = normalize U x"
proof -
  define A where "A = toLowerCase U x"
  define Bc where "Bc = codePoints (crlfToLf A)"
  define Pc where "Pc = replaceRuns (punct U) (Unit 0x20) Bc"
  define Dc where "Dc = replaceRuns isSpaceCp (Unit 0x20) Pc"
  define yc where "yc = rev (dropWhile isSpaceCp (rev (dropWhile isSpaceCp Dc)))"
  define D where "D = replaceRuns isSpace 0x20 (units Pc)"
  define y where "y = trim D"
  have y: "normalize U x = y"
    by (simp add: normalize_def A_def Bc_def Pc_def D_def y_def)
  have setP: "set Pc \<subseteq> insert (Unit 0x20) {c \<in> set Bc. \<not> punct U c}"
    unfolding Pc_def by (rule replaceRuns_set)
  have wfP: "wellFormed Pc"
    unfolding wellFormed_def list_all_iff
  proof
    fix c assume c: "c \<in> set Pc"
    show "case c of Unit u \<Rightarrow> \<not> isHigh u \<and> \<not> isLow u | Pair h l \<Rightarrow> isHigh h \<and> isLow l"
    proof (cases c)
      case (Unit u)
      show ?thesis
      proof (cases "isSpace u")
        case True
        then show ?thesis
          using isSpace_not_surrogate by (simp add: Unit)
      next
        case False
        then have "c \<noteq> Unit 0x20"
          using isSpace_blank Unit by auto
        with c setP have "\<not> punct U c"
          by auto
        with False have "isLetter U (Unit u) \<or> isNumber U (Unit u)"
          by (auto simp: punct_def Unit isSpaceCp_def)
        with surrogates show ?thesis
          by (auto simp: surrogatesUnclassified_def Unit)
      qed
    next
      case (Pair h l)
      with c setP have "Pair h l \<in> set Bc"
        by auto
      then show ?thesis
        unfolding Bc_def Pair using codePoints_pairs by simp
    qed
  qed
  have D_units: "D = units Dc"
    unfolding D_def Dc_def using wfP by (rule replaceRuns_units)
  have wfD: "wellFormed Dc"
    unfolding Dc_def using wfP by (rule wellFormed_replaceRuns)
  have y_units: "y = units yc"
    unfolding y_def D_units yc_def using wfD by (rule trim_units)
  have setY: "set yc \<subseteq> set Dc"
    by (auto simp: yc_def dest!: set_dropWhileD)
  have setD: "set Dc \<subseteq> insert (Unit 0x20) {c \<in> set Pc. \<not> isSpaceCp c}"
    unfolding Dc_def by (rule replaceRuns_set)
  have wfY: "wellFormed yc"
    using wfD setY by (rule wellFormed_subset)
  have cpY: "codePoints y = yc"
    unfolding y_units using wfY by (rule codePoints_units)
  have "set Bc \<subseteq> set (codePoints A)"
    unfolding Bc_def by (rule crlfToLf_codePoints)
  with setY setD setP have "set (codePoints y) \<subseteq> insert (Unit 0x20) (set (codePoints (toLowerCase U x)))"
    unfolding cpY A_def by blast
  with stable have 1: "toLowerCase U y = y"
    unfolding lowercaseStable_def by blast
  have setDu: "set D \<subseteq> insert 0x20 {u \<in> set (units Pc). \<not> isSpace u}"
    unfolding D_def by (rule replaceRuns_set)
  have sp: "\<forall>u \<in> set y. isSpace u \<longrightarrow> u = 0x20"
    using trim_set [of D] setDu unfolding y_def by blast
  have "0x0D \<notin> set y"
  proof
    assume "0x0D \<in> set y"
    moreover have "isSpace 0x0D"
      by (simp add: isSpace_def)
    ultimately have "(0x0D :: 16 word) = 0x20"
      using sp by blast
    then show False by simp
  qed
  then have 2: "crlfToLf y = y"
    by (induction y rule: crlfToLf.induct) auto
  have "\<not> punct U (Unit 0x20)"
    by (simp add: punct_def isSpaceCp_def isSpace_blank)
  with setY setD setP have "\<forall>c \<in> set yc. \<not> punct U c"
    by blast
  then have "replaceRuns (punct U) (Unit 0x20) yc = yc"
    by (rule replaceRuns_id)
  then have 3: "units (replaceRuns (punct U) (Unit 0x20) (codePoints y)) = y"
    unfolding cpY by (simp add: y_units)
  have single: "successively (\<lambda>a b. \<not> (isSpace a \<and> isSpace b)) y"
    unfolding y_def D_def by (intro trim_single replaceRuns_single isSpace_blank)
  have 4: "replaceRuns isSpace 0x20 y = y"
    using sp single by (rule replaceRuns_fixed)
  have 5: "trim y = y"
    unfolding y_def by (rule trim_idem)
  have "normalize U y = y"
    by (simp add: normalize_def 1 2 3 4 5)
  then show ?thesis
    by (simp add: y)
qed

lemma codePoints_unitsOf: "c \<in> set (codePoints s) \<Longrightarrow> set (unitsOf c) \<subseteq> set s"
proof -
  assume "c \<in> set (codePoints s)"
  then have "set (unitsOf c) \<subseteq> set (units (codePoints s))"
    by (auto simp: units_def)
  then show ?thesis
    by (simp add: units_codePoints)
qed

lemma lowered_lowerUnit: "u \<noteq> 0x130 \<Longrightarrow> u \<noteq> 0x3A3 \<Longrightarrow> lowered (lowerUnit u)"
  by (auto simp: lowered_def lowerUnit_def word_le_nat_alt unat_word_ariths)

lemma lowered_consts: "lowered 0x69" "lowered 0x307" "lowered 0x3C2" "lowered 0x3C3" "lowered 0x20"
  by (simp_all add: lowered_def lowerUnit_def)

lemma lowerAfter_lowered: "u \<in> set (lowerAfter cased s) \<Longrightarrow> lowered u"
  by (induction s arbitrary: cased) (auto simp: lowered_consts lowered_lowerUnit split: if_splits)

lemma lowerAfter_id: "\<forall>u \<in> set t. lowered u \<Longrightarrow> lowerAfter cased t = t"
  by (induction t arbitrary: cased) (auto simp: lowered_def)

lemma sampleUnicode_lowercaseStable: "lowercaseStable sampleUnicode"
  unfolding lowercaseStable_def
proof (intro allI impI)
  fix s t
  assume sub: "set (codePoints t) \<subseteq>
                 insert (Unit 0x20) (set (codePoints (toLowerCase sampleUnicode s)))"
  have "lowered u" if "u \<in> set t" for u
  proof -
    from that have "u \<in> set (units (codePoints t))"
      by (simp add: units_codePoints)
    then obtain c where c: "c \<in> set (codePoints t)" "u \<in> set (unitsOf c)"
      by (auto simp: units_def)
    show ?thesis
    proof (cases "c = Unit 0x20")
      case True
      with c(2) show ?thesis
        by (simp add: lowered_consts)
    next
      case False
      with c(1) sub have "c \<in> set (codePoints (lowerAfter False s))"
        by (auto simp: sampleUnicode_def)
      with c(2) have "u \<in> set (lowerAfter False s)"
        using codePoints_unitsOf by blast
      then show ?thesis
        by (rule lowerAfter_lowered)
    qed
  qed
  then show "toLowerCase sampleUnicode t = t"
    by (simp add: sampleUnicode_def lowerAfter_id)
qed

lemma sampleUnicode_surrogatesUnclassified: "surrogatesUnclassified sampleUnicode"
  by (auto simp: surrogatesUnclassified_def sampleUnicode_def casedUnit_def latin1Letter_def
      latin1Number_def isHigh_def isLow_def word_le_nat_alt)

text \<open>
  The sample lowercasing on \<open>A\<close>, U+03A3, comma, space, U+03A3, U+0130, \<open>!\<close> gives
  \<open>a\<close>, U+03C2, comma, space, U+03C3, \<open>i\<close>, U+0307, \<open>!\<close>, one unit longer, and the
  normalized text is \<open>a\<close>, U+03C2, space, U+03C3, \<open>i\<close>.
\<close>

theorem normalize_idempotent_witness:
  "lowercaseStable sampleUnicode \<and> surrogatesUnclassified sampleUnicode \<and>
   normalize sampleUnicode (normalize sampleUnicode [0x41, 0x3A3, 0x2C, 0x20, 0x3A3, 0x130, 0x21]) =
     normalize sampleUnicode [0x41, 0x3A3, 0x2C, 0x20, 0x3A3, 0x130, 0x21] \<and>
   toLowerCase sampleUnicode [0x41, 0x3A3, 0x2C, 0x20, 0x3A3, 0x130, 0x21] =
     [0x61, 0x3C2, 0x2C, 0x20, 0x3C3, 0x69, 0x307, 0x21] \<and>
   normalize sampleUnicode [0x41, 0x3A3, 0x2C, 0x20, 0x3A3, 0x130, 0x21] =
     [0x61, 0x3C2, 0x20, 0x3C3, 0x69]"
proof -
  have "toLowerCase sampleUnicode [0x41, 0x3A3, 0x2C, 0x20, 0x3A3, 0x130, 0x21] =
          [0x61, 0x3C2, 0x2C, 0x20, 0x3C3, 0x69, 0x307, 0x21]"
    by code_simp
  moreover have "normalize sampleUnicode [0x41, 0x3A3, 0x2C, 0x20, 0x3A3, 0x130, 0x21] =
          [0x61, 0x3C2, 0x20, 0x3C3, 0x69]"
    by code_simp
  moreover note normalize_idempotent [OF sampleUnicode_lowercaseStable
      sampleUnicode_surrogatesUnclassified, of "[0x41, 0x3A3, 0x2C, 0x20, 0x3A3, 0x130, 0x21]"]
    sampleUnicode_lowercaseStable sampleUnicode_surrogatesUnclassified
  ultimately show ?thesis
    by blast
qed

section \<open>Winnowing: positions and adjacent fingerprints\<close>

text \<open>
  The inner loop returns the leftmost element of least hash among \<open>x\<close> and \<open>xs\<close>.
\<close>

lemma foldl_leftmost_min:
  fixes x :: "int \<times> int"
  defines "g \<equiv> (\<lambda>m cur. if fst cur < fst m then cur else m)"
  shows "\<exists>p \<le> length xs. foldl g x xs = (x # xs) ! p \<and>
           (\<forall>q \<le> length xs. fst ((x # xs) ! p) \<le> fst ((x # xs) ! q)) \<and>
           (\<forall>q < p. fst ((x # xs) ! p) < fst ((x # xs) ! q))"
proof (induction xs rule: rev_induct)
  case Nil
  then show ?case by simp
next
  case (snoc y xs)
  then obtain p where p: "p \<le> length xs" "foldl g x xs = (x # xs) ! p"
    and least: "\<forall>q \<le> length xs. fst ((x # xs) ! p) \<le> fst ((x # xs) ! q)"
    and left: "\<forall>q < p. fst ((x # xs) ! p) < fst ((x # xs) ! q)"
    by blast
  have nth_old: "(x # xs @ [y]) ! q = (x # xs) ! q" if "q \<le> length xs" for q
    using that by (metis Cons_eq_appendI length_Cons less_Suc_eq_le nth_append)
  have nth_new: "(x # xs @ [y]) ! Suc (length xs) = y"
    by (simp add: nth_append)
  show ?case
  proof (cases "fst y < fst ((x # xs) ! p)")
    case True
    then have r: "foldl g x (xs @ [y]) = (x # xs @ [y]) ! Suc (length xs)"
      by (simp add: g_def p(2) [unfolded g_def] nth_new)
    have "\<forall>q \<le> length (xs @ [y]). fst y \<le> fst ((x # xs @ [y]) ! q)"
    proof (intro allI impI)
      fix q assume "q \<le> length (xs @ [y])"
      then consider "q \<le> length xs" | "q = Suc (length xs)"
        by fastforce
      then show "fst y \<le> fst ((x # xs @ [y]) ! q)"
      proof cases
        case 1
        with least True show ?thesis
          by (simp add: nth_old) (meson less_le_not_le order.trans linear)
      next
        case 2
        then show ?thesis by (simp add: nth_new)
      qed
    qed
    moreover have "\<forall>q < Suc (length xs). fst y < fst ((x # xs @ [y]) ! q)"
    proof (intro allI impI)
      fix q assume "q < Suc (length xs)"
      then have q: "q \<le> length xs" by simp
      with least have "fst ((x # xs) ! p) \<le> fst ((x # xs) ! q)" by blast
      with True q show "fst y < fst ((x # xs @ [y]) ! q)"
        by (simp add: nth_old)
    qed
    ultimately show ?thesis
      using r nth_new
      by (intro exI [of _ "Suc (length xs)"]) (simp del: nth_Cons_Suc)
  next
    case False
    then have r: "foldl g x (xs @ [y]) = (x # xs @ [y]) ! p"
      using p by (simp add: g_def p(2) [unfolded g_def] nth_old)
    have "\<forall>q \<le> length (xs @ [y]). fst ((x # xs @ [y]) ! p) \<le> fst ((x # xs @ [y]) ! q)"
    proof (intro allI impI)
      fix q assume "q \<le> length (xs @ [y])"
      then consider "q \<le> length xs" | "q = Suc (length xs)"
        by fastforce
      then show "fst ((x # xs @ [y]) ! p) \<le> fst ((x # xs @ [y]) ! q)"
      proof cases
        case 1
        with least p(1) show ?thesis by (simp add: nth_old)
      next
        case 2
        with False p(1) show ?thesis by (simp add: nth_old nth_new del: nth_Cons_Suc)
      qed
    qed
    moreover have "\<forall>q < p. fst ((x # xs @ [y]) ! p) < fst ((x # xs @ [y]) ! q)"
    proof (intro allI impI)
      fix q assume q: "q < p"
      have a: "(x # xs @ [y]) ! p = (x # xs) ! p"
        using p(1) by (rule nth_old)
      have b: "(x # xs @ [y]) ! q = (x # xs) ! q"
        using q p(1) by (intro nth_old) simp
      show "fst ((x # xs @ [y]) ! p) < fst ((x # xs @ [y]) ! q)"
        unfolding a b using left q by blast
    qed
    ultimately show ?thesis
      using r p(1) by (intro exI [of _ p]) simp
  qed
qed


lemma windowMin_pick:
  assumes W: "0 < W" and fit: "i + W \<le> length hs"
  shows "\<exists>a. i \<le> a \<and> a < i + W \<and> windowMin hs i W = hs ! a \<and>
           (\<forall>q. i \<le> q \<and> q < i + W \<longrightarrow> fst (hs ! a) \<le> fst (hs ! q)) \<and>
           (\<forall>q. i \<le> q \<and> q < a \<longrightarrow> fst (hs ! a) < fst (hs ! q))"
proof -
  define x where "x = hs ! i"
  define xs where "xs = take (W - 1) (drop (Suc i) hs)"
  have i: "i < length hs"
    using W fit by simp
  have len: "length xs = W - 1"
    using W fit by (simp add: xs_def)
  have window: "take W (drop i hs) = x # xs"
  proof -
    have "drop i hs = hs ! i # drop (Suc i) hs"
      using i by (simp add: Cons_nth_drop_Suc)
    moreover have "W = Suc (W - 1)"
      using W by simp
    ultimately show ?thesis
      by (metis take_Suc_Cons x_def xs_def)
  qed
  have nth: "(x # xs) ! q = hs ! (i + q)" if "q < W" for q
  proof -
    have "(x # xs) ! q = take W (drop i hs) ! q"
      by (simp only: window)
    also have "\<dots> = hs ! (i + q)"
      using that fit by simp
    finally show ?thesis .
  qed
  have "windowMin hs i W = foldl (\<lambda>m cur. if fst cur < fst m then cur else m) x xs"
    by (simp add: windowMin_def window x_def [symmetric])
  moreover obtain p where p: "p \<le> length xs"
    and r: "foldl (\<lambda>m cur. if fst cur < fst m then cur else m) x xs = (x # xs) ! p"
    and least: "\<forall>q \<le> length xs. fst ((x # xs) ! p) \<le> fst ((x # xs) ! q)"
    and left: "\<forall>q < p. fst ((x # xs) ! p) < fst ((x # xs) ! q)"
    using foldl_leftmost_min [of xs x] by blast
  ultimately have wm: "windowMin hs i W = hs ! (i + p)"
    using p len W by (simp add: nth)
  have pW: "p < W"
    using p len W by simp
  have "\<forall>q. i \<le> q \<and> q < i + W \<longrightarrow> fst (hs ! (i + p)) \<le> fst (hs ! q)"
  proof (intro allI impI)
    fix q assume q: "i \<le> q \<and> q < i + W"
    then have "q - i \<le> length xs" "q - i < W"
      using len by auto
    with least have "fst ((x # xs) ! p) \<le> fst ((x # xs) ! (q - i))"
      by blast
    then show "fst (hs ! (i + p)) \<le> fst (hs ! q)"
      using q pW \<open>q - i < W\<close> by (simp add: nth)
  qed
  moreover have "\<forall>q. i \<le> q \<and> q < i + p \<longrightarrow> fst (hs ! (i + p)) < fst (hs ! q)"
  proof (intro allI impI)
    fix q assume q: "i \<le> q \<and> q < i + p"
    then have "q - i < p" "q - i < W"
      using pW by auto
    with left have "fst ((x # xs) ! p) < fst ((x # xs) ! (q - i))"
      by blast
    moreover have "(x # xs) ! p = hs ! (i + p)"
      using pW by (rule nth)
    moreover have "(x # xs) ! (q - i) = hs ! (i + (q - i))"
      using \<open>q - i < W\<close> by (rule nth)
    moreover have "i + (q - i) = q"
      using q by simp
    ultimately show "fst (hs ! (i + p)) < fst (hs ! q)"
      by simp
  qed
  ultimately show ?thesis
    using wm pW by (intro exI [of _ "i + p"]) simp
qed

lemma windowMin_pos_mono:
  assumes W: "0 < W" and fit: "Suc i + W \<le> length hs"
    and idx: "\<forall>j < length hs. snd (hs ! j) = int j"
  shows "snd (windowMin hs i W) \<le> snd (windowMin hs (Suc i) W)"
proof -
  obtain a where a: "i \<le> a" "a < i + W" "windowMin hs i W = hs ! a"
    and a_left: "\<forall>q. i \<le> q \<and> q < a \<longrightarrow> fst (hs ! a) < fst (hs ! q)"
    using windowMin_pick [OF W, of i hs] fit by auto
  obtain b where b: "Suc i \<le> b" "b < Suc i + W" "windowMin hs (Suc i) W = hs ! b"
    and b_least: "\<forall>q. Suc i \<le> q \<and> q < Suc i + W \<longrightarrow> fst (hs ! b) \<le> fst (hs ! q)"
    using windowMin_pick [OF W fit] by auto
  have "a \<le> b"
  proof (rule ccontr)
    assume "\<not> a \<le> b"
    then have ba: "b < a" by simp
    with b(1) a_left have "fst (hs ! a) < fst (hs ! b)"
      by simp
    moreover have "fst (hs ! b) \<le> fst (hs ! a)"
      using b_least ba b(1) a(2) by simp
    ultimately show False by simp
  qed
  moreover have "a < length hs" "b < length hs"
    using a(2) b(2) fit by simp_all
  ultimately show ?thesis
    using idx a(3) b(3) by simp
qed

text \<open>What the outer loop keeps true of its state.\<close>

lemma pick_adjacent:
  assumes "distinct_adj (map (\<lambda>f. (hash f, pos f)) (fps st))"
    and "fps st \<noteq> [] \<longrightarrow> lastPickedPos st = pos (last (fps st)) \<and>
           lastPickedHash st = Some (hash (last (fps st)))"
  shows "distinct_adj (map (\<lambda>f. (hash f, pos f)) (fps (pick st m))) \<and>
         (fps (pick st m) \<noteq> [] \<longrightarrow> lastPickedPos (pick st m) = pos (last (fps (pick st m))) \<and>
           lastPickedHash (pick st m) = Some (hash (last (fps (pick st m)))))"
  using assms by (auto simp: pick_def distinct_adj_append_iff last_map)

lemma pick_sorted:
  assumes "sorted (map pos (fps st))" and "\<forall>f \<in> set (fps st). pos f \<le> snd m"
  shows "sorted (map pos (fps (pick st m))) \<and> (\<forall>f \<in> set (fps (pick st m)). pos f \<le> snd m)"
  using assms by (auto simp: pick_def sorted_append)

lemma winnow_loop_invariant:
  assumes W: "0 < W" and idx: "\<forall>j < length hs. snd (hs ! j) = int j"
    and n: "0 < n \<longrightarrow> n + W \<le> Suc (length hs)"
  defines "st \<equiv> foldl (\<lambda>st i. pick st (windowMin hs i W))
                        \<lparr>fps = [], lastPickedPos = - 1, lastPickedHash = None\<rparr> [0 ..< n]"
  shows "distinct_adj (map (\<lambda>f. (hash f, pos f)) (fps st)) \<and>
         (fps st \<noteq> [] \<longrightarrow> lastPickedPos st = pos (last (fps st)) \<and>
            lastPickedHash st = Some (hash (last (fps st)))) \<and>
         sorted (map pos (fps st)) \<and>
         (\<forall>f \<in> set (fps st). 0 < n \<and> pos f \<le> snd (windowMin hs (n - 1) W))"
  using n unfolding st_def
proof (induction n)
  case 0
  then show ?case by simp
next
  case (Suc n)
  define s where "s = foldl (\<lambda>st i. pick st (windowMin hs i W))
                        \<lparr>fps = [], lastPickedPos = - 1, lastPickedHash = None\<rparr> [0 ..< n]"
  have ih: "distinct_adj (map (\<lambda>f. (hash f, pos f)) (fps s))"
    "fps s \<noteq> [] \<longrightarrow> lastPickedPos s = pos (last (fps s)) \<and>
       lastPickedHash s = Some (hash (last (fps s)))"
    "sorted (map pos (fps s))"
    "\<forall>f \<in> set (fps s). 0 < n \<and> pos f \<le> snd (windowMin hs (n - 1) W)"
    using Suc unfolding s_def by simp_all
  have step: "foldl (\<lambda>st i. pick st (windowMin hs i W))
                \<lparr>fps = [], lastPickedPos = - 1, lastPickedHash = None\<rparr> [0 ..< Suc n] =
              pick s (windowMin hs n W)"
    by (simp add: s_def)
  have below: "\<forall>f \<in> set (fps s). pos f \<le> snd (windowMin hs n W)"
  proof
    fix f assume f: "f \<in> set (fps s)"
    with ih(4) have n0: "0 < n" and le: "pos f \<le> snd (windowMin hs (n - 1) W)"
      by auto
    have "snd (windowMin hs (n - 1) W) \<le> snd (windowMin hs (Suc (n - 1)) W)"
      using W idx Suc.prems n0 by (intro windowMin_pos_mono) simp_all
    with le n0 show "pos f \<le> snd (windowMin hs n W)"
      by simp
  qed
  show ?case
    unfolding step
    using pick_adjacent [OF ih(1) ih(2), of "windowMin hs n W"]
      pick_sorted [OF ih(3) below] by simp
qed

lemma winnowHashes_ordered:
  assumes "\<forall>j < length hs. snd (hs ! j) = int j"
  shows "sorted (map pos (winnowHashes hs w)) \<and>
         distinct_adj (map (\<lambda>f. (hash f, pos f)) (winnowHashes hs w))"
proof -
  have "0 < nat (max 1 w)"
    by simp
  moreover have "0 < nat (int (length hs) - max 1 w + 1) \<longrightarrow>
      nat (int (length hs) - max 1 w + 1) + nat (max 1 w) \<le> Suc (length hs)"
    by arith
  ultimately show ?thesis
    using winnow_loop_invariant [OF _ assms, of "nat (max 1 w)" "nat (int (length hs) - max 1 w + 1)"]
    by (simp add: winnowHashes_def Let_def)
qed

lemma makeKgrams_pos: "j < length (makeKgrams U T k) \<Longrightarrow> snd (makeKgrams U T k ! j) = int j"
  by (auto simp: makeKgrams_def Let_def split: if_splits)

text \<open>
  Claim C8. The positions of the fingerprints that \<open>winnow\<close> returns never decrease, and
  no two adjacent fingerprints have the same hash and position. It holds for every \<open>k\<close>
  and \<open>w\<close>, so for every \<open>k \<ge> 1\<close>.
\<close>

theorem winnow_positions_sorted_adjacent_distinct:
  "sorted (map pos (winnow U h64 T k w)) \<and>
   distinct_adj (map (\<lambda>f. (hash f, pos f)) (winnow U h64 T k w))"
proof (cases "length (makeKgrams U T k) = 0")
  case True
  then show ?thesis by (simp add: winnow_def)
next
  case False
  have "\<forall>j < length (map (\<lambda>g. (h64 (fst g), snd g)) (makeKgrams U T k)).
          snd (map (\<lambda>g. (h64 (fst g), snd g)) (makeKgrams U T k) ! j) = int j"
    by (simp add: makeKgrams_pos)
  then show ?thesis
    using False by (simp add: winnow_def Let_def winnowHashes_ordered)
qed

theorem winnow_positions_sorted_adjacent_distinct_witness:
  "winnow latin1 sha1First8 (ascii ''abbabbb'') 1 4 =
     [\<lparr>hash = 0x86f7e437faa5a7fc, pos = 0\<rparr>, \<lparr>hash = 0x86f7e437faa5a7fc, pos = 3\<rparr>] \<and>
   sorted (map pos (winnow latin1 sha1First8 (ascii ''abbabbb'') 1 4)) \<and>
   distinct_adj (map (\<lambda>f. (hash f, pos f)) (winnow latin1 sha1First8 (ascii ''abbabbb'') 1 4))"
proof (rule conjI)
  show "winnow latin1 sha1First8 (ascii ''abbabbb'') 1 4 =
     [\<lparr>hash = 0x86f7e437faa5a7fc, pos = 0\<rparr>, \<lparr>hash = 0x86f7e437faa5a7fc, pos = 3\<rparr>]"
    by code_simp
  show "sorted (map pos (winnow latin1 sha1First8 (ascii ''abbabbb'') 1 4)) \<and>
   distinct_adj (map (\<lambda>f. (hash f, pos f)) (winnow latin1 sha1First8 (ascii ''abbabbb'') 1 4))"
    by (rule winnow_positions_sorted_adjacent_distinct)
qed

section \<open>MinHash signatures\<close>

lemma modBig_mod:
  assumes "0 < m"
  shows "modBig x m = x mod m"
proof (cases "0 \<le> x")
  case True
  with assms show ?thesis
    by (cases "x = 0") (simp_all add: modBig_def bigintRem_def Let_def)
next
  case False
  then have x: "x < 0" by simp
  have r: "bigintRem x m = - ((- x) mod m)"
    using x assms by (simp add: bigintRem_def)
  have "(- x) mod m = (if x mod m = 0 then 0 else m - x mod m)"
    by (rule zmod_zminus1_eq_if)
  moreover have "0 \<le> x mod m" "x mod m < m"
    using assms by simp_all
  ultimately show ?thesis
    unfolding modBig_def Let_def r by (auto split: if_splits)
qed

lemma PRIME_value: "PRIME = 2 ^ 61 - 1"
  by (simp add: PRIME_def)

lemma hashToInt61_mod: "hashToInt61 h = h mod PRIME"
  by (simp add: hashToInt61_def modBig_mod PRIME_def)

lemma set_jsSet_foldl:
  "set (foldl (\<lambda>s x. if x \<in> set s then s else s @ [x]) acc xs) = set acc \<union> set xs"
  by (induction xs arbitrary: acc) auto

lemma set_jsSet: "set (jsSet xs) = set xs"
  by (simp add: jsSet_def set_jsSet_foldl)

lemma foldl_running_min:
  fixes F :: "int \<Rightarrow> int"
  shows "foldl (\<lambda>min x. let v = F x in if v < min then v else min) m xs = Min (insert m (F ` set xs))"
proof (induction xs arbitrary: m)
  case Nil
  then show ?case by simp
next
  case (Cons x xs)
  have c: "(if F x < m then F x else m) = min m (F x)"
    by (simp add: min_def)
  have "Min (insert (min m (F x)) (F ` set xs)) = Min (insert m (insert (F x) (F ` set xs)))"
  proof (cases "F ` set xs = {}")
    case True
    then show ?thesis by simp
  next
    case False
    have fin: "finite (F ` set xs)"
      by simp
    have "Min (insert (min m (F x)) (F ` set xs)) = min (min m (F x)) (Min (F ` set xs))"
      using fin False by (rule Min_insert)
    moreover have "Min (insert (F x) (F ` set xs)) = min (F x) (Min (F ` set xs))"
      using fin False by (rule Min_insert)
    moreover have "Min (insert m (insert (F x) (F ` set xs))) = min m (Min (insert (F x) (F ` set xs)))"
      by (rule Min_insert) simp_all
    ultimately show ?thesis
      by (simp only: min.assoc)
  qed
  then have "Min (insert (if F x < m then F x else m) (F ` set xs)) =
        Min (insert m (insert (F x) (F ` set xs)))"
    by (simp only: c)
  with Cons show ?case
    by (simp add: Let_def insert_commute)
qed

text \<open>
  Claim C7. The signature has \<open>numPerm\<close> entries. With \<open>S\<close> the set of the 61-bit hashes
  of the k-grams of the text, every entry is \<open>P = 2\<^sup>6\<^sup>1 - 1\<close> when \<open>S\<close> is empty, and
  entry \<open>i\<close> is otherwise the least \<open>(a\<^sub>i x + b\<^sub>i) mod P\<close> over \<open>x\<close> in \<open>S\<close>, with
  \<open>a\<^sub>i = 1 + (7919 i mod 100000)\<close> and \<open>b\<^sub>i = 1 + (104729 i mod 100000)\<close>. It holds
  for every \<open>k\<close> and \<open>numPerm\<close>, so for \<open>k \<ge> 1\<close> and \<open>numPerm \<ge> 1\<close>.
\<close>

theorem minhashSignature_entries:
  fixes U and h64 :: "jsString \<Rightarrow> int" and T :: jsString and k :: int
  defines "P \<equiv> 2 ^ 61 - 1"
  defines "S \<equiv> (\<lambda>g. h64 (fst g) mod P) ` set (makeKgrams U T k)"
  shows "length (minhashSignature U h64 T k numPerm) = numPerm \<and>
         (S = {} \<longrightarrow> (\<forall>i < numPerm. minhashSignature U h64 T k numPerm ! i = P)) \<and>
         (S \<noteq> {} \<longrightarrow> (\<forall>i < numPerm. minhashSignature U h64 T k numPerm ! i =
            Min ((\<lambda>x. ((1 + (int i * 7919) mod 100000) * x + (1 + (int i * 104729) mod 100000)) mod P) ` S)))"
proof -
  define items where "items = jsSet (map (\<lambda>g. hashToInt61 (h64 (fst g))) (makeKgrams U T k))"
  have P: "P = PRIME"
    by (simp add: P_def PRIME_def)
  have S: "set items = S"
    by (simp add: items_def set_jsSet S_def P hashToInt61_mod image_image)
  have empty: "length items = 0 \<longleftrightarrow> S = {}"
    using S by auto
  have sig: "minhashSignature U h64 T k numPerm =
     (if length items = 0 then replicate numPerm PRIME
      else map (\<lambda>i. foldl (\<lambda>min x. let v = modBig (permA i * x + permB i) PRIME
                                     in if v < min then v else min) PRIME items) [0 ..< numPerm])"
    by (simp add: minhashSignature_def Let_def items_def)
  have len: "length (minhashSignature U h64 T k numPerm) = numPerm"
    by (simp add: sig)
  have e: "\<forall>i < numPerm. minhashSignature U h64 T k numPerm ! i = P" if "S = {}"
    using that empty by (simp add: sig P)
  have ne: "minhashSignature U h64 T k numPerm ! i =
      Min ((\<lambda>x. ((1 + (int i * 7919) mod 100000) * x + (1 + (int i * 104729) mod 100000)) mod P) ` S)"
    if "S \<noteq> {}" and i: "i < numPerm" for i
  proof -
    define F where "F = (\<lambda>x. modBig (permA i * x + permB i) PRIME)"
    have F: "F x = ((1 + (int i * 7919) mod 100000) * x + (1 + (int i * 104729) mod 100000)) mod P" for x
      by (simp add: F_def modBig_mod PRIME_def P_def permA_def permB_def)
    have "minhashSignature U h64 T k numPerm ! i =
          foldl (\<lambda>min x. let v = F x in if v < min then v else min) PRIME items"
      using that empty by (simp add: sig F_def)
    also have "\<dots> = Min (insert PRIME (F ` S))"
      by (simp only: foldl_running_min S)
    also have "\<dots> = Min (F ` S)"
    proof -
      have fin: "finite (F ` S)"
        using S by (metis List.finite_set finite_imageI)
      have nonempty: "F ` S \<noteq> {}"
        using that by simp
      have "Min (F ` S) \<in> F ` S"
        using fin nonempty by (rule Min_in)
      then obtain x where "Min (F ` S) = F x"
        by auto
      then have "Min (F ` S) < PRIME"
        by (simp add: F P [symmetric] P_def)
      moreover have "Min (insert PRIME (F ` S)) = min PRIME (Min (F ` S))"
        using fin nonempty by (rule Min_insert)
      ultimately show ?thesis
        by (simp only: min_def) simp
    qed
    also have "F ` S = (\<lambda>x. ((1 + (int i * 7919) mod 100000) * x + (1 + (int i * 104729) mod 100000)) mod P) ` S"
      by (simp add: F)
    finally show ?thesis .
  qed
  show ?thesis
    using len e ne by blast
qed

theorem minhashSignature_entries_witness:
  "(\<lambda>g. sha1First8 (fst g) mod (2 ^ 61 - 1)) ` set (makeKgrams latin1 (ascii ''ab'') 1) \<noteq> {} \<and>
   (2 :: nat) < 3 \<and>
   length (minhashSignature latin1 sha1First8 (ascii ''ab'') 1 3) = 3 \<and>
   minhashSignature latin1 sha1First8 (ascii ''ab'') 1 3 ! 2 =
     Min ((\<lambda>x. ((1 + (int 2 * 7919) mod 100000) * x + (1 + (int 2 * 104729) mod 100000)) mod (2 ^ 61 - 1)) `
          (\<lambda>g. sha1First8 (fst g) mod (2 ^ 61 - 1)) ` set (makeKgrams latin1 (ascii ''ab'') 1)) \<and>
   minhashSignature latin1 sha1First8 (ascii ''ab'') 1 3 = [502120812554594305, 1106346341840081085, 239011274188753516] \<and>
   (\<lambda>g. sha1First8 (fst g) mod (2 ^ 61 - 1)) ` set (makeKgrams latin1 [] 1) = {} \<and>
   minhashSignature latin1 sha1First8 [] 1 3 ! 2 = 2 ^ 61 - 1"
proof -
  have g: "makeKgrams latin1 (ascii ''ab'') 1 = [(ascii ''a'', 0), (ascii ''b'', 1)]"
    by code_simp
  have g0: "makeKgrams latin1 [] 1 = []"
    by code_simp
  have ne: "(\<lambda>g. sha1First8 (fst g) mod (2 ^ 61 - 1)) ` set (makeKgrams latin1 (ascii ''ab'') 1) \<noteq> {}"
    by (simp add: g)
  have e: "(\<lambda>g. sha1First8 (fst g) mod (2 ^ 61 - 1)) ` set (makeKgrams latin1 [] 1) = {}"
    by (simp add: g0)
  have i: "(2 :: nat) < 3"
    by simp
  have v: "minhashSignature latin1 sha1First8 (ascii ''ab'') 1 3 =
      [502120812554594305, 1106346341840081085, 239011274188753516]"
    by code_simp
  from minhashSignature_entries [of latin1 sha1First8 "ascii ''ab''" 1 3] ne i
  have 1: "length (minhashSignature latin1 sha1First8 (ascii ''ab'') 1 3) = 3"
    and 2: "minhashSignature latin1 sha1First8 (ascii ''ab'') 1 3 ! 2 =
     Min ((\<lambda>x. ((1 + (int 2 * 7919) mod 100000) * x + (1 + (int 2 * 104729) mod 100000)) mod (2 ^ 61 - 1)) `
          (\<lambda>g. sha1First8 (fst g) mod (2 ^ 61 - 1)) ` set (makeKgrams latin1 (ascii ''ab'') 1))"
    by blast+
  from minhashSignature_entries [of latin1 sha1First8 "[]" 1 3] e i
  have 3: "minhashSignature latin1 sha1First8 [] 1 3 ! 2 = 2 ^ 61 - 1"
    by blast
  from ne i 1 2 v e 3 show ?thesis
    by blast
qed

section \<open>Rounding\<close>




lemma fl_0: "fl 0 = 0"
  by (simp add: fl_def)

lemma fl_1: "fl 1 = 1"
  by code_simp

text \<open>
  Where the rounding shows. The quotient \<open>5 / 6\<close> and the decimal \<open>0.8333333333333334\<close>
  are the same double, so a similarity of \<open>5 / 6\<close> reaches that threshold, and
  \<open>631 / 800 * 10000\<close> is a double below \<open>7887.5\<close>, which \<open>Math.round\<close> takes to 7887.
\<close>

lemma fl_examples:
  "fl (8333333333333334 / 10000000000000000) \<le> fl (5 / 6)"
  "\<not> (8333333333333334 / 10000000000000000 :: rat) \<le> 5 / 6"
  "\<lfloor>fl (fl (631 / 800) * 10000) + 1 / 2\<rfloor> = 7887"
  "\<lfloor>(631 / 800 :: rat) * 10000 + 1 / 2\<rfloor> = 7888"
  by code_simp+

section \<open>Match spans\<close>

lemma buildMapB_foldl:
  "(\<forall>key arr. mapB key = Some arr \<longrightarrow> set arr \<subseteq> B) \<Longrightarrow> pos ` set fpB \<subseteq> B \<Longrightarrow>
   foldl (\<lambda>mapB x. mapB(hash x \<mapsto> (case mapB (hash x) of None \<Rightarrow> [] | Some arr \<Rightarrow> arr) @ [pos x]))
         mapB fpB key = Some arr \<Longrightarrow> set arr \<subseteq> B"
proof (induction fpB arbitrary: mapB)
  case Nil
  then show ?case by simp
next
  case (Cons x fpB)
  show ?case
  proof (rule Cons.IH [OF _ _ Cons.prems(3) [unfolded foldl_Cons]])
    show "\<forall>key arr. (mapB(hash x \<mapsto> (case mapB (hash x) of None \<Rightarrow> [] | Some arr \<Rightarrow> arr) @ [pos x])) key = Some arr \<longrightarrow>
            set arr \<subseteq> B"
    proof (intro allI impI)
      fix key arr
      assume a: "(mapB(hash x \<mapsto> (case mapB (hash x) of None \<Rightarrow> [] | Some arr \<Rightarrow> arr) @ [pos x])) key = Some arr"
      show "set arr \<subseteq> B"
      proof (cases "key = hash x")
        case True
        with a have arr: "arr = (case mapB (hash x) of None \<Rightarrow> [] | Some arr \<Rightarrow> arr) @ [pos x]"
          by simp
        have "pos x \<in> B"
          using Cons.prems(2) by simp
        moreover have "set (case mapB (hash x) of None \<Rightarrow> [] | Some arr \<Rightarrow> arr) \<subseteq> B"
          using Cons.prems(1) by (cases "mapB (hash x)") simp_all
        ultimately show ?thesis
          by (simp add: arr)
      next
        case False
        with a Cons.prems(1) show ?thesis by simp
      qed
    qed
    show "pos ` set fpB \<subseteq> B"
      using Cons.prems(2) by auto
  qed
qed

lemma buildMapB_positions: "buildMapB fpB key = Some arr \<Longrightarrow> set arr \<subseteq> pos ` set fpB"
  unfolding buildMapB_def by (rule buildMapB_foldl [where mapB = Map.empty]) auto

lemma rawMatches_bPos:
  assumes "m \<in> set (rawMatches fpA (buildMapB fpB))"
  shows "bPos m \<in> pos ` set fpB"
proof -
  from assms obtain a :: Fingerprint
    where a: "m \<in> set (case buildMapB fpB (hash a) of None \<Rightarrow> [] | Some [] \<Rightarrow> []
                        | Some (b # _) \<Rightarrow> [\<lparr>mhash = hash a, aPos = pos a, bPos = b\<rparr>])"
    by (auto simp: rawMatches_def)
  show ?thesis
  proof (cases "buildMapB fpB (hash a)")
    case None
    with a show ?thesis by simp
  next
    case (Some arr)
    show ?thesis
    proof (cases arr)
      case Nil
      with a Some show ?thesis by simp
    next
      case (Cons b bs)
      with a Some have "bPos m = b"
        by simp
      moreover have "b \<in> pos ` set fpB"
        using buildMapB_positions [OF Some] Cons by auto
      ultimately show ?thesis by simp
    qed
  qed
qed

lemma sweep_invariant:
  assumes k: "1 \<le> k"
    and "sorted (map aPos ms)"
    and "\<forall>m \<in> set ms. docStart cur \<le> aPos m \<and> bPos m \<in> B"
    and "\<forall>s \<in> set (spans @ [cur]). docStart s < docEnd s \<and> srcStart s \<in> B \<and> srcEnd s - k \<in> B"
    and "sorted_wrt (<) (map docStart (spans @ [cur]))"
  shows "(\<forall>s \<in> set (fst (foldl (sweep k) (spans, cur) ms) @ [snd (foldl (sweep k) (spans, cur) ms)]).
            docStart s < docEnd s \<and> srcStart s \<in> B \<and> srcEnd s - k \<in> B) \<and>
         sorted_wrt (<) (map docStart (fst (foldl (sweep k) (spans, cur) ms) @
                                        [snd (foldl (sweep k) (spans, cur) ms)]))"
  using assms(2-)
proof (induction ms arbitrary: spans cur)
  case Nil
  then show ?case by simp
next
  case (Cons m ms)
  have m: "docStart cur \<le> aPos m" "bPos m \<in> B"
    using Cons.prems(2) by simp_all
  have rest: "sorted (map aPos ms)" "\<forall>m' \<in> set ms. aPos m \<le> aPos m' \<and> bPos m' \<in> B"
    using Cons.prems(1,2) by simp_all
  show ?case
  proof (cases "aPos m \<le> docEnd cur + k")
    case True
    define cur' where "cur' = cur\<lparr>docEnd := aPos m + k, srcEnd := bPos m + k\<rparr>"
    have step: "sweep k (spans, cur) m = (spans, cur')"
      using True by (simp add: sweep_def cur'_def)
    have 1: "\<forall>m' \<in> set ms. docStart cur' \<le> aPos m' \<and> bPos m' \<in> B"
      using Cons.prems(2) by (simp add: cur'_def)
    have 2: "\<forall>s \<in> set (spans @ [cur']). docStart s < docEnd s \<and> srcStart s \<in> B \<and> srcEnd s - k \<in> B"
      using Cons.prems(3) m k by (auto simp: cur'_def)
    have 3: "sorted_wrt (<) (map docStart (spans @ [cur']))"
      using Cons.prems(4) by (simp add: cur'_def)
    show ?thesis
      unfolding foldl_Cons step by (rule Cons.IH [OF rest(1) 1 2 3])
  next
    case False
    have step: "sweep k (spans, cur) m = (spans @ [cur], openSpan k m)"
      using False by (simp add: sweep_def)
    have 1: "\<forall>m' \<in> set ms. docStart (openSpan k m) \<le> aPos m' \<and> bPos m' \<in> B"
      using rest(2) by (simp add: openSpan_def)
    have 2: "\<forall>s \<in> set ((spans @ [cur]) @ [openSpan k m]).
               docStart s < docEnd s \<and> srcStart s \<in> B \<and> srcEnd s - k \<in> B"
      using Cons.prems(3) m k by (auto simp: openSpan_def)
    have cur: "docStart cur < docEnd cur"
      using Cons.prems(3) by simp
    have "\<forall>s \<in> set (spans @ [cur]). docStart s \<le> docStart cur"
      using Cons.prems(4) by (auto simp: sorted_wrt_append)
    then have "\<forall>s \<in> set (spans @ [cur]). docStart s < aPos m"
      using cur False k by fastforce
    then have 3: "sorted_wrt (<) (map docStart ((spans @ [cur]) @ [openSpan k m]))"
      using Cons.prems(4) by (simp add: sorted_wrt_append openSpan_def) 
    show ?thesis
      unfolding foldl_Cons step by (rule Cons.IH [OF rest(1) 1 2 3])
  qed
qed

lemma groupSpans_invariant:
  assumes k: "1 \<le> k" and ne: "ms \<noteq> []" and sorted: "sorted (map aPos ms)"
    and B: "\<forall>m \<in> set ms. bPos m \<in> B"
  shows "(\<forall>s \<in> set (groupSpans k ms). docStart s < docEnd s \<and> srcStart s \<in> B \<and> srcEnd s - k \<in> B) \<and>
         sorted_wrt (<) (map docStart (groupSpans k ms))"
proof -
  obtain m rest where ms: "ms = m # rest"
    using ne by (cases ms) auto
  have "(\<forall>s \<in> set (fst (foldl (sweep k) ([], openSpan k m) rest) @
                     [snd (foldl (sweep k) ([], openSpan k m) rest)]).
            docStart s < docEnd s \<and> srcStart s \<in> B \<and> srcEnd s - k \<in> B) \<and>
         sorted_wrt (<) (map docStart (fst (foldl (sweep k) ([], openSpan k m) rest) @
                                        [snd (foldl (sweep k) ([], openSpan k m) rest)]))"
  proof (rule sweep_invariant [OF k])
    show "sorted (map aPos rest)"
      using sorted ms by simp
    show "\<forall>m' \<in> set rest. docStart (openSpan k m) \<le> aPos m' \<and> bPos m' \<in> B"
      using sorted B ms by (simp add: openSpan_def)
    show "\<forall>s \<in> set ([] @ [openSpan k m]). docStart s < docEnd s \<and> srcStart s \<in> B \<and> srcEnd s - k \<in> B"
      using k B ms by (simp add: openSpan_def)
    show "sorted_wrt (<) (map docStart ([] @ [openSpan k m]))"
      by simp
  qed
  then show ?thesis
    by (simp add: groupSpans_def ms Let_def)
qed

lemma buildMatchSpans_invariant:
  assumes k: "1 \<le> k"
  shows "(\<forall>s \<in> set (buildMatchSpans fpA fpB k).
            doc_span_start s < doc_span_end s \<and>
            src_span_start s \<in> pos ` set fpB \<and> src_span_end s - k \<in> pos ` set fpB \<and>
            match_score s = min 1 (fl (rat_of_int (doc_span_end s - doc_span_start s) /
                                   rat_of_int (int (length fpA) * k)))) \<and>
         sorted_wrt (<) (map doc_span_start (buildMatchSpans fpA fpB k))"
proof (cases "length (rawMatches fpA (buildMapB fpB)) = 0")
  case True
  then show ?thesis by (simp add: buildMatchSpans_def)
next
  case False
  define ms where "ms = sort_key aPos (rawMatches fpA (buildMapB fpB))"
  have "length ms = length (rawMatches fpA (buildMapB fpB))"
    by (simp add: ms_def)
  then have ne: "ms \<noteq> []"
    using False by auto
  have sorted: "sorted (map aPos ms)"
    by (simp add: ms_def)
  have B: "\<forall>m \<in> set ms. bPos m \<in> pos ` set fpB"
    by (simp add: ms_def rawMatches_bPos)
  have fpA: "length fpA \<noteq> 0"
    using False by (auto simp: rawMatches_def)
  have spans: "buildMatchSpans fpA fpB k =
      map (\<lambda>s. \<lparr>doc_span_start = docStart s, doc_span_end = docEnd s,
                  src_span_start = srcStart s, src_span_end = srcEnd s,
                  match_score = min 1 (fl (rat_of_int (docEnd s - docStart s) /
                                       rat_of_int (int (length fpA) * k))),
                  snippet_hash = curHash s\<rparr>) (groupSpans k ms)"
    using False fpA by (simp add: buildMatchSpans_def Let_def ms_def)
  from groupSpans_invariant [OF k ne sorted B]
  show ?thesis
    unfolding spans by (simp add: comp_def)
qed




section \<open>The check run\<close>

lemma postCheck_short:
  assumes "tooShort (readTextSafe fs docPath) (param_k ps)"
  shows "snd (postCheck U h64 sha1hex fs db ps docPath mc) = BadRequest tooShortMessage"
    and "check_requests (fst (postCheck U h64 sha1hex fs db ps docPath mc)) =
           map (\<lambda>r. if id_check r = nextId (map id_check (check_requests db))
                      then r\<lparr>status := ''failed''\<rparr> else r)
               (check_requests db @
                [\<lparr>id_check = nextId (map id_check (check_requests db)), status = ''processing''\<rparr>])"
    and "check_results (fst (postCheck U h64 sha1hex fs db ps docPath mc)) = check_results db"
    and "check_matches (fst (postCheck U h64 sha1hex fs db ps docPath mc)) = check_matches db"
  using assms by (simp_all add: postCheck_def Let_def setStatus_def)

lemma postCheck_long:
  fixes U h64 sha1hex fs db ps docPath mc
  assumes "\<not> tooShort (readTextSafe fs docPath) (param_k ps)"
  defines "rows \<equiv> selectActiveCorpus (corpus_documents db)"
  defines "cands \<equiv> selectCandidates U h64 sha1hex fs ps (readTextSafe fs docPath) rows
                      (min (case mc of None \<Rightarrow> 10 | Some n \<Rightarrow> n) 50)"
  defines "verified \<equiv> verifyCandidates U h64 fs ps (readTextSafe fs docPath) rows cands"
  shows "snd (postCheck U h64 sha1hex fs db ps docPath mc) =
           Created (nextId (map id_check (check_requests db)))
                   (nextId (map id_result (check_results db)))
                   (fl (rat_of_int \<lfloor>fl (snd verified * 10000) + 1 / 2\<rfloor> / 100)) (fl (threshold ps))
                   (length cands) (length (fst verified))"
    and "check_requests (fst (postCheck U h64 sha1hex fs db ps docPath mc)) =
           map (\<lambda>r. if id_check r = nextId (map id_check (check_requests db))
                      then r\<lparr>status := ''done''\<rparr> else r)
               (check_requests db @
                [\<lparr>id_check = nextId (map id_check (check_requests db)), status = ''processing''\<rparr>])"
    and "check_results (fst (postCheck U h64 sha1hex fs db ps docPath mc)) =
           check_results db @
           [\<lparr>id_result = nextId (map id_result (check_results db)),
             check_id = nextId (map id_check (check_requests db)),
             similarity = fl (rat_of_int \<lfloor>fl (snd verified * 10000) + 1 / 2\<rfloor> / 100),
             summary_json = \<lparr>params = ps\<lparr>threshold := fl (threshold ps)\<rparr>, candidates = cands,
                              best_similarity = snd verified\<rparr>\<rparr>]"
    and "check_matches (fst (postCheck U h64 sha1hex fs db ps docPath mc)) =
           check_matches db @
           map (\<lambda>m. match_row.extend m \<lparr>result_id = nextId (map id_result (check_results db))\<rparr>)
               (fst verified)"
  using assms(1) unfolding rows_def cands_def verified_def
  by (simp_all add: postCheck_def Let_def setStatus_def)

lemma requestOf_short:
  assumes "tooShort (readTextSafe fs docPath) (param_k ps)"
  shows "requestOf (postCheck U h64 sha1hex fs db ps docPath mc) =
           \<lparr>id_check = nextId (map id_check (check_requests db)), status = ''failed''\<rparr>"
  unfolding requestOf_def postCheck_short(2) [OF assms] by (simp add: last_map)

lemma requestOf_long:
  assumes "\<not> tooShort (readTextSafe fs docPath) (param_k ps)"
  shows "requestOf (postCheck U h64 sha1hex fs db ps docPath mc) =
           \<lparr>id_check = nextId (map id_check (check_requests db)), status = ''done''\<rparr>"
  unfolding requestOf_def postCheck_long(2) [OF assms] by (simp add: last_map)

lemma run_outcome:
  "(tooShort (readTextSafe fs docPath) (param_k ps) \<longrightarrow>
      snd (postCheck U h64 sha1hex fs db ps docPath mc) = BadRequest tooShortMessage \<and>
      status (requestOf (postCheck U h64 sha1hex fs db ps docPath mc)) = ''failed'' \<and>
      newResults db (postCheck U h64 sha1hex fs db ps docPath mc) = []) \<and>
   (\<not> tooShort (readTextSafe fs docPath) (param_k ps) \<longrightarrow>
      snd (postCheck U h64 sha1hex fs db ps docPath mc) \<noteq> BadRequest tooShortMessage \<and>
      status (requestOf (postCheck U h64 sha1hex fs db ps docPath mc)) = ''done'' \<and>
      length (newResults db (postCheck U h64 sha1hex fs db ps docPath mc)) = 1)"
proof (cases "tooShort (readTextSafe fs docPath) (param_k ps)")
  case True
  then show ?thesis
    by (simp add: postCheck_short(1,3) requestOf_short newResults_def)
next
  case False
  then show ?thesis
    by (simp add: postCheck_long(1,3) requestOf_long newResults_def)
qed

text \<open>
  Claim C3 says that the run fails as too short exactly when the normalized document text is
  shorter than \<open>k\<close>. The handler never normalizes the text for this test: it compares the
  length of the trimmed file content. The document \<open>a,,,,b\<close> normalizes to \<open>a b\<close>, shorter than
  \<open>k = 5\<close>, and the run completes and persists a result.
\<close>

theorem too_short_normalized_counterexample:
  "int (length (normalize latin1 (ascii ''a,,,,b''))) < 5 \<and>
   the (sampleFs ''p'') = (ascii ''a,,,,b'') \<and>
   snd (postCheck latin1 sha1First8 id sampleFs (emptyDb []) (sampleParams 5 4 (4 / 5)) (Some ''p'') None)
     \<noteq> BadRequest tooShortMessage \<and>
   status (requestOf (postCheck latin1 sha1First8 id sampleFs (emptyDb []) (sampleParams 5 4 (4 / 5))
                                (Some ''p'') None)) = ''done'' \<and>
   length (newResults (emptyDb [])
             (postCheck latin1 sha1First8 id sampleFs (emptyDb []) (sampleParams 5 4 (4 / 5))
                        (Some ''p'') None)) = 1"
proof -
  have n: "int (length (normalize latin1 (ascii ''a,,,,b''))) < 5"
    by code_simp
  have f: "the (sampleFs ''p'') = (ascii ''a,,,,b'')"
    by (simp add: sampleFs_def)
  have "\<not> tooShort (readTextSafe sampleFs (Some ''p'')) (param_k (sampleParams 5 4 (4 / 5)))"
    by code_simp
  with run_outcome [of sampleFs "Some ''p''" "sampleParams 5 4 (4 / 5)" latin1 sha1First8 id "emptyDb []" None]
    n f show ?thesis
    by blast
qed

text \<open>
  Claim C3, amended. For \<open>k \<ge> 1\<close>, the run fails as too short, marks its request row
  \<open>failed\<close> and adds no result row, exactly when the trimmed content of the document's text
  file (empty when the file cannot be read) is shorter than \<open>k\<close>; otherwise it marks the
  request \<open>done\<close> and adds one result row.
\<close>

theorem too_short_iff_trimmed_length:
  fixes U h64 sha1hex fs db ps docPath mc
  defines "r \<equiv> postCheck U h64 sha1hex fs db ps docPath mc"
  assumes k: "1 \<le> param_k ps"
  shows "(snd r = BadRequest tooShortMessage \<longleftrightarrow>
            int (length (trim (readTextSafe fs docPath))) < param_k ps) \<and>
         (snd r = BadRequest tooShortMessage \<longrightarrow>
            status (requestOf r) = ''failed'' \<and> newResults db r = []) \<and>
         (snd r \<noteq> BadRequest tooShortMessage \<longrightarrow>
            status (requestOf r) = ''done'' \<and> length (newResults db r) = 1)"
proof -
  have "tooShort (readTextSafe fs docPath) (param_k ps) \<longleftrightarrow>
        int (length (trim (readTextSafe fs docPath))) < param_k ps"
    using k by (auto simp: tooShort_def trim_def)
  with run_outcome [of fs docPath ps U h64 sha1hex db mc] show ?thesis
    unfolding r_def by blast
qed

theorem too_short_iff_trimmed_length_witness:
  "1 \<le> param_k (sampleParams 1 4 (4 / 5)) \<and>
   int (length (trim (readTextSafe sampleFs (Some ''missing'')))) < param_k (sampleParams 1 4 (4 / 5)) \<and>
   snd (postCheck latin1 sha1First8 id sampleFs (emptyDb []) (sampleParams 1 4 (4 / 5)) (Some ''missing'') None)
     = BadRequest tooShortMessage \<and>
   status (requestOf (postCheck latin1 sha1First8 id sampleFs (emptyDb []) (sampleParams 1 4 (4 / 5))
                                (Some ''missing'') None)) = ''failed'' \<and>
   newResults (emptyDb [])
     (postCheck latin1 sha1First8 id sampleFs (emptyDb []) (sampleParams 1 4 (4 / 5)) (Some ''missing'') None) = [] \<and>
   \<not> int (length (trim (readTextSafe sampleFs (Some ''d'')))) < param_k (sampleParams 1 4 (4 / 5)) \<and>
   snd (postCheck latin1 sha1First8 id sampleFs (emptyDb []) (sampleParams 1 4 (4 / 5)) (Some ''d'') None)
     \<noteq> BadRequest tooShortMessage \<and>
   status (requestOf (postCheck latin1 sha1First8 id sampleFs (emptyDb []) (sampleParams 1 4 (4 / 5))
                                (Some ''d'') None)) = ''done'' \<and>
   length (newResults (emptyDb [])
     (postCheck latin1 sha1First8 id sampleFs (emptyDb []) (sampleParams 1 4 (4 / 5)) (Some ''d'') None)) = 1"
proof -
  have k: "1 \<le> param_k (sampleParams 1 4 (4 / 5))"
    by (simp add: sampleParams_def)
  have short: "int (length (trim (readTextSafe sampleFs (Some ''missing'')))) < param_k (sampleParams 1 4 (4 / 5))"
    by code_simp
  have long: "\<not> int (length (trim (readTextSafe sampleFs (Some ''d'')))) < param_k (sampleParams 1 4 (4 / 5))"
    by code_simp
  from too_short_iff_trimmed_length [OF k, of latin1 sha1First8 id sampleFs "emptyDb []" "Some ''missing''" None]
    too_short_iff_trimmed_length [OF k, of latin1 sha1First8 id sampleFs "emptyDb []" "Some ''d''" None]
    k short long
  show ?thesis
    by blast
qed

section \<open>Candidate selection\<close>

lemma length_minhashSignature: "length (minhashSignature U h64 text k n) = n"
  by (simp add: minhashSignature_def Let_def)

lemma lshBuckets_nonempty: "length sig = 100 \<Longrightarrow> lshBuckets sha1hex sig 20 \<noteq> []"
  by (simp add: lshBuckets_def Let_def)

lemma estimateMinhashSim_same: "sig \<noteq> [] \<Longrightarrow> estimateMinhashSim sig sig = 1"
  by (simp add: estimateMinhashSim_def Let_def fl_1)

lemma share_same: "B \<noteq> [] \<Longrightarrow> list_ex (\<lambda>b. b \<in> set (jsSet B)) B"
  by (cases B) (simp_all add: set_jsSet)

lemma scoreCandidates_Nil: "scoreCandidates U h64 sha1hex fs k sig [] = []"
  by (simp add: scoreCandidates_def)

lemma scoreCandidates_Cons:
  "scoreCandidates U h64 sha1hex fs k sig (c # rows) =
     scoreCandidates U h64 sha1hex fs k sig [c] @ scoreCandidates U h64 sha1hex fs k sig rows"
  by (simp add: scoreCandidates_def Let_def)

lemma scoreCandidates_skip:
  "tooShort (readTextSafe fs (path_text c)) k \<Longrightarrow> scoreCandidates U h64 sha1hex fs k sig [c] = []"
  by (simp add: scoreCandidates_def Let_def)

lemma scoreCandidates_same:
  assumes "\<not> tooShort text k" and "readTextSafe fs (path_text c) = text"
  shows "scoreCandidates U h64 sha1hex fs k (minhashSignature U h64 text k 100) [c] =
           [\<lparr>id_corpus = id_corpus c, title = title c, approx = 1\<rparr>]"
proof -
  define sig where "sig = minhashSignature U h64 text k 100"
  have len: "length sig = 100"
    by (simp add: sig_def length_minhashSignature)
  then have ne: "sig \<noteq> []"
    by auto
  have "list_ex (\<lambda>b. b \<in> set (jsSet (lshBuckets sha1hex sig 20))) (lshBuckets sha1hex sig 20)"
    using len by (intro share_same lshBuckets_nonempty)
  then show ?thesis
    using assms ne
    by (simp add: scoreCandidates_def Let_def sig_def [symmetric] estimateMinhashSim_same)
qed

lemma scoreCandidates_single:
  "scoreCandidates U h64 sha1hex fs k sig [c] = [] \<or>
   (\<exists>a. scoreCandidates U h64 sha1hex fs k sig [c] = [\<lparr>id_corpus = id_corpus c, title = title c, approx = a\<rparr>] \<and>
        \<not> tooShort (readTextSafe fs (path_text c)) k)"
  by (simp add: scoreCandidates_def Let_def)

lemma scoreCandidates_from_row:
  assumes "x \<in> set (scoreCandidates U h64 sha1hex fs k sig rows)"
  shows "\<exists>c \<in> set rows. id_corpus x = id_corpus c \<and> \<not> tooShort (readTextSafe fs (path_text c)) k"
  using assms
proof (induction rows)
  case Nil
  then show ?case by (simp add: scoreCandidates_Nil)
next
  case (Cons c rows)
  from Cons.prems consider "x \<in> set (scoreCandidates U h64 sha1hex fs k sig [c])"
    | "x \<in> set (scoreCandidates U h64 sha1hex fs k sig rows)"
    by (subst (asm) scoreCandidates_Cons) auto
  then show ?case
  proof cases
    case 1
    with scoreCandidates_single [of U h64 sha1hex fs k sig c] show ?thesis
      by auto
  next
    case 2
    with Cons.IH show ?thesis by auto
  qed
qed

lemma scoreCandidates_ids_decreasing:
  assumes "sorted_wrt (\<lambda>a b. id_corpus b < id_corpus a) rows"
  shows "sorted_wrt (\<lambda>a b. id_corpus b < id_corpus a) (scoreCandidates U h64 sha1hex fs k sig rows)"
  using assms
proof (induction rows)
  case Nil
  then show ?case by (simp add: scoreCandidates_Nil)
next
  case (Cons c rows)
  have below: "id_corpus y < id_corpus c" if "y \<in> set (scoreCandidates U h64 sha1hex fs k sig rows)" for y
    using scoreCandidates_from_row [OF that] Cons.prems by auto
  have ih: "sorted_wrt (\<lambda>a b. id_corpus b < id_corpus a) (scoreCandidates U h64 sha1hex fs k sig rows)"
    using Cons by simp
  from scoreCandidates_single [of U h64 sha1hex fs k sig c] show ?case
  proof
    assume "scoreCandidates U h64 sha1hex fs k sig [c] = []"
    with ih show ?thesis
      by (subst scoreCandidates_Cons) simp
  next
    assume "\<exists>a. scoreCandidates U h64 sha1hex fs k sig [c] =
                  [\<lparr>id_corpus = id_corpus c, title = title c, approx = a\<rparr>] \<and>
                \<not> tooShort (readTextSafe fs (path_text c)) k"
    then obtain a where "scoreCandidates U h64 sha1hex fs k sig [c] =
                  [\<lparr>id_corpus = id_corpus c, title = title c, approx = a\<rparr>]"
      by blast
    with ih below show ?thesis
      by (subst scoreCandidates_Cons) simp
  qed
qed

lemma selectActiveCorpus_decreasing:
  assumes "distinct (map id_corpus tbl)"
  shows "sorted_wrt (\<lambda>a b. id_corpus b < id_corpus a) (selectActiveCorpus tbl)"
proof -
  define rows where "rows = selectActiveCorpus tbl"
  have "distinct (map id_corpus (filter (\<lambda>c. is_active c \<and> path_text c \<noteq> None) tbl))"
    using assms by (rule distinct_map_filter)
  then have "distinct (map id_corpus rows)"
    unfolding rows_def selectActiveCorpus_def
    by (simp add: distinct_map)
  then have "distinct (map (\<lambda>c. - id_corpus c) rows)"
    by (auto simp: distinct_map inj_on_def)
  moreover have "sorted (map (\<lambda>c. - id_corpus c) rows)"
    by (simp add: rows_def selectActiveCorpus_def)
  ultimately have "sorted_wrt (<) (map (\<lambda>c. - id_corpus c) rows)"
    by (simp add: strict_sorted_iff)
  then show ?thesis
    by (simp add: sorted_wrt_map rows_def)
qed

text \<open>
  A stable sort by \<open>f\<close> of a list in descending order of \<open>g\<close> orders by \<open>f\<close>, and by descending
  \<open>g\<close> where \<open>f\<close> ties.
\<close>

lemma insort_key_ties:
  fixes f :: "'a \<Rightarrow> rat" and g :: "'a \<Rightarrow> int"
  assumes "sorted_wrt (\<lambda>a b. f a < f b \<or> (f a = f b \<and> g b < g a)) ys"
    and "\<forall>y \<in> set ys. g y < g x"
  shows "sorted_wrt (\<lambda>a b. f a < f b \<or> (f a = f b \<and> g b < g a)) (insort_key f x ys)"
  using assms
proof (induction ys)
  case Nil
  then show ?case by simp
next
  case (Cons y ys)
  show ?case
  proof (cases "f x \<le> f y")
    case True
    have "f x < f z \<or> (f x = f z \<and> g z < g x)" if "z \<in> set (y # ys)" for z
    proof -
      have "f y \<le> f z"
        using that Cons.prems(1) by auto
      with True have "f x \<le> f z" by simp
      moreover have "g z < g x"
        using that Cons.prems(2) by auto
      ultimately show ?thesis by auto
    qed
    with True Cons.prems(1) show ?thesis
      by simp
  next
    case False
    then have "f y < f x" by simp
    moreover have "sorted_wrt (\<lambda>a b. f a < f b \<or> (f a = f b \<and> g b < g a)) (insort_key f x ys)"
      using Cons by simp
    ultimately show ?thesis
      using False Cons.prems(1) by (auto simp: set_insort_key)
  qed
qed

lemma sort_key_ties:
  fixes f :: "'a \<Rightarrow> rat" and g :: "'a \<Rightarrow> int"
  assumes "sorted_wrt (\<lambda>a b. g b < g a) xs"
  shows "sorted_wrt (\<lambda>a b. f a < f b \<or> (f a = f b \<and> g b < g a)) (sort_key f xs)"
  using assms
proof (induction xs)
  case Nil
  then show ?case by simp
next
  case (Cons x xs)
  have "\<forall>y \<in> set (sort_key f xs). g y < g x"
    using Cons.prems by simp
  moreover have "sorted_wrt (\<lambda>a b. f a < f b \<or> (f a = f b \<and> g b < g a)) (sort_key f xs)"
    using Cons by simp
  ultimately show ?case
    by (simp add: insort_key_ties)
qed

lemma arraySlice0_take: "arraySlice0 xs e = take (nat (if e < 0 then max (int (length xs) + e) 0 else e)) xs"
  by (simp add: arraySlice0_def Let_def min_def)

lemma selectCandidates_scanOrder:
  assumes "distinct (map id_corpus tbl)"
  shows "sorted_wrt scanOrder
           (selectCandidates U h64 sha1hex fs ps docText (selectActiveCorpus tbl) maxCandidates)"
proof -
  define scored where "scored = scoreCandidates U h64 sha1hex fs (param_k ps)
      (minhashSignature U h64 docText (param_k ps) 100) (selectActiveCorpus tbl)"
  have "sorted_wrt (\<lambda>a b. id_corpus b < id_corpus a) scored"
    unfolding scored_def using assms
    by (intro scoreCandidates_ids_decreasing selectActiveCorpus_decreasing)
  then have "sorted_wrt (\<lambda>a b. - approx a < - approx b \<or> (- approx a = - approx b \<and> id_corpus b < id_corpus a))
               (sort_key (\<lambda>c. - approx c) scored)"
    by (rule sort_key_ties)
  moreover have "(\<lambda>a b. - approx a < - approx b \<or> (- approx a = - approx b \<and> id_corpus b < id_corpus a))
      = scanOrder"
    by (intro ext) (auto simp: scanOrder_def)
  ultimately have "sorted_wrt scanOrder (sort_key (\<lambda>c. - approx c) scored)"
    by simp
  then show ?thesis
    by (simp add: selectCandidates_def Let_def scored_def [symmetric] arraySlice0_take sorted_wrt_take)
qed


lemma truncate_extend: "match_row.truncate (match_row.extend m e) = m"
  by (cases m) (simp add: match_row.defs)

text \<open>The worked example: the document \<open>abbabbb\<close> and two corpus texts equal to it.\<close>

lemma sample_rows:
  "selectActiveCorpus [sampleRow 1 ''c1'', sampleRow 2 ''c2''] = [sampleRow 2 ''c2'', sampleRow 1 ''c1'']"
  by code_simp

lemma sample_texts:
  "readTextSafe sampleFs (Some ''d'') = (ascii ''abbabbb'')"
  "readTextSafe sampleFs (path_text (sampleRow 1 ''c1'')) = (ascii ''abbabbb'')"
  "readTextSafe sampleFs (path_text (sampleRow 2 ''c2'')) = (ascii ''abbabbb'')"
  by (simp_all add: readTextSafe_def sampleFs_def sampleRow_def)

lemma sample_long: "\<not> tooShort (ascii ''abbabbb'') 1"
  by code_simp

lemma sample_candidates:
  "selectCandidates latin1 sha1First8 id sampleFs (sampleParams 1 4 (4 / 5)) (ascii ''abbabbb'')
     [sampleRow 2 ''c2'', sampleRow 1 ''c1''] 10 =
   [\<lparr>id_corpus = 2, title = ''t'', approx = 1\<rparr>, \<lparr>id_corpus = 1, title = ''t'', approx = 1\<rparr>]"
proof -
  have k: "param_k (sampleParams 1 4 (4 / 5)) = 1"
    by (simp add: sampleParams_def)
  have "scoreCandidates latin1 sha1First8 id sampleFs 1 (minhashSignature latin1 sha1First8 (ascii ''abbabbb'') 1 100)
          [sampleRow 2 ''c2'', sampleRow 1 ''c1''] =
        [\<lparr>id_corpus = 2, title = ''t'', approx = 1\<rparr>, \<lparr>id_corpus = 1, title = ''t'', approx = 1\<rparr>]"
    by (subst scoreCandidates_Cons)
       (simp add: scoreCandidates_same [OF sample_long sample_texts(2)]
          scoreCandidates_same [OF sample_long sample_texts(3)], simp add: sampleRow_def)
  then show ?thesis
    by (simp add: selectCandidates_def k arraySlice0_def)
qed

lemma sample_verified:
  "verifyCandidates latin1 sha1First8 sampleFs (sampleParams 1 4 (4 / 5)) (ascii ''abbabbb'')
     [sampleRow 2 ''c2'', sampleRow 1 ''c1'']
     [\<lparr>id_corpus = 2, title = ''t'', approx = 1\<rparr>, \<lparr>id_corpus = 1, title = ''t'', approx = 1\<rparr>] =
   ([\<lparr>doc_span_start = 0, doc_span_end = 1, src_span_start = 0, src_span_end = 1,
      match_score = 1, snippet_hash = 0x86f7e437faa5a7fc, source_type = ''corpus'', source_id = 2\<rparr>,
     \<lparr>doc_span_start = 3, doc_span_end = 4, src_span_start = 0, src_span_end = 1,
      match_score = 1, snippet_hash = 0x86f7e437faa5a7fc, source_type = ''corpus'', source_id = 2\<rparr>,
     \<lparr>doc_span_start = 0, doc_span_end = 1, src_span_start = 0, src_span_end = 1,
      match_score = 1, snippet_hash = 0x86f7e437faa5a7fc, source_type = ''corpus'', source_id = 1\<rparr>,
     \<lparr>doc_span_start = 3, doc_span_end = 4, src_span_start = 0, src_span_end = 1,
      match_score = 1, snippet_hash = 0x86f7e437faa5a7fc, source_type = ''corpus'', source_id = 1\<rparr>], 1)"
  by code_simp

lemma sample_run:
  fixes r
  defines "r \<equiv> postCheck latin1 sha1First8 id sampleFs (emptyDb [sampleRow 1 ''c1'', sampleRow 2 ''c2''])
                   (sampleParams 1 4 (4 / 5)) (Some ''d'') None"
  shows "map (candidates \<circ> summary_json)
             (newResults (emptyDb [sampleRow 1 ''c1'', sampleRow 2 ''c2'']) r) =
           [[\<lparr>id_corpus = 2, title = ''t'', approx = 1\<rparr>, \<lparr>id_corpus = 1, title = ''t'', approx = 1\<rparr>]]"
    and "map (\<lambda>m. (source_id m, doc_span_start m, match_score m))
             (newMatches (emptyDb [sampleRow 1 ''c1'', sampleRow 2 ''c2'']) r) =
           [(2, 0, 1), (2, 3, 1), (1, 0, 1), (1, 3, 1)]"
proof -
  have long: "\<not> tooShort (readTextSafe sampleFs (Some ''d'')) (param_k (sampleParams 1 4 (4 / 5)))"
    using sample_long by (simp add: sample_texts sampleParams_def)
  have db: "corpus_documents (emptyDb [sampleRow 1 ''c1'', sampleRow 2 ''c2'']) =
              [sampleRow 1 ''c1'', sampleRow 2 ''c2'']"
    "check_results (emptyDb [sampleRow 1 ''c1'', sampleRow 2 ''c2'']) = []"
    "check_matches (emptyDb [sampleRow 1 ''c1'', sampleRow 2 ''c2'']) = []"
    by (simp_all add: emptyDb_def)
  show "map (candidates \<circ> summary_json)
             (newResults (emptyDb [sampleRow 1 ''c1'', sampleRow 2 ''c2'']) r) =
           [[\<lparr>id_corpus = 2, title = ''t'', approx = 1\<rparr>, \<lparr>id_corpus = 1, title = ''t'', approx = 1\<rparr>]]"
    unfolding r_def newResults_def postCheck_long(3) [OF long]
    by (simp add: db sample_rows sample_texts sample_candidates)
  show "map (\<lambda>m. (source_id m, doc_span_start m, match_score m))
             (newMatches (emptyDb [sampleRow 1 ''c1'', sampleRow 2 ''c2'']) r) =
           [(2, 0, 1), (2, 3, 1), (1, 0, 1), (1, 3, 1)]"
    unfolding r_def newMatches_def postCheck_long(4) [OF long]
    by (simp add: db sample_rows sample_texts sample_candidates sample_verified match_row.defs)
qed

text \<open>
  Claim C4 says that candidates with equal \<open>approx\<close> are in ascending order of corpus id. The
  corpus is read in descending order of id and the sort by \<open>approx\<close> is stable, so ties stay
  in descending order: with two corpus texts equal to the document, candidate 2 comes before
  candidate 1.
\<close>

theorem candidates_tie_order_counterexample:
  "map (candidates \<circ> summary_json)
       (newResults (emptyDb [sampleRow 1 ''c1'', sampleRow 2 ''c2''])
          (postCheck latin1 sha1First8 id sampleFs (emptyDb [sampleRow 1 ''c1'', sampleRow 2 ''c2''])
                     (sampleParams 1 4 (4 / 5)) (Some ''d'') None)) =
     [[\<lparr>id_corpus = 2, title = ''t'', approx = 1\<rparr>, \<lparr>id_corpus = 1, title = ''t'', approx = 1\<rparr>]] \<and>
   \<not> sorted_wrt ascendingIdOrder
        [\<lparr>id_corpus = 2, title = ''t'', approx = 1\<rparr>, \<lparr>id_corpus = 1, title = ''t'', approx = 1\<rparr>]"
  by (simp add: sample_run(1) ascendingIdOrder_def)

text \<open>
  Claim C4, amended. When corpus ids are distinct, the candidate list persisted in the summary,
  the one that Winnowing verification runs over, is ordered by \<open>approx\<close> descending with ties
  in descending order of corpus id; when \<open>maxCandidates = min(max_candidates, 50)\<close> is not
  negative it is the first \<open>maxCandidates\<close> entries of the sorted list of scored candidates.
\<close>

theorem candidates_sorted_and_cut:
  fixes U h64 sha1hex fs db ps docPath mc
  defines "r \<equiv> postCheck U h64 sha1hex fs db ps docPath mc"
  defines "docText \<equiv> readTextSafe fs docPath"
  defines "rows \<equiv> selectActiveCorpus (corpus_documents db)"
  defines "maxCandidates \<equiv> min (case mc of None \<Rightarrow> 10 | Some n \<Rightarrow> n) 50"
  defines "cands \<equiv> selectCandidates U h64 sha1hex fs ps docText rows maxCandidates"
  assumes long: "\<not> tooShort docText (param_k ps)"
    and ids: "distinct (map id_corpus (corpus_documents db))"
  shows "map (candidates \<circ> summary_json) (newResults db r) = [cands] \<and>
         map match_row.truncate (newMatches db r) = fst (verifyCandidates U h64 fs ps docText rows cands) \<and>
         sorted_wrt scanOrder cands \<and>
         (0 \<le> maxCandidates \<longrightarrow>
            cands = take (nat maxCandidates)
                      (sort_key (\<lambda>c. - approx c)
                         (scoreCandidates U h64 sha1hex fs (param_k ps)
                            (minhashSignature U h64 docText (param_k ps) 100) rows)))"
proof -
  have long': "\<not> tooShort (readTextSafe fs docPath) (param_k ps)"
    using long by (simp add: docText_def)
  have 1: "map (candidates \<circ> summary_json) (newResults db r) = [cands]"
    unfolding r_def newResults_def postCheck_long(3) [OF long']
    by (simp add: cands_def rows_def docText_def maxCandidates_def)
  have 2: "map match_row.truncate (newMatches db r) =
           fst (verifyCandidates U h64 fs ps docText rows cands)"
    unfolding r_def newMatches_def postCheck_long(4) [OF long']
    by (simp add: cands_def rows_def docText_def maxCandidates_def comp_def truncate_extend)
  have 3: "sorted_wrt scanOrder cands"
    unfolding cands_def rows_def using ids by (rule selectCandidates_scanOrder)
  have 4: "cands = take (nat maxCandidates)
                      (sort_key (\<lambda>c. - approx c)
                         (scoreCandidates U h64 sha1hex fs (param_k ps)
                            (minhashSignature U h64 docText (param_k ps) 100) rows))"
    if "0 \<le> maxCandidates"
    using that by (simp add: cands_def selectCandidates_def Let_def arraySlice0_take)
  from 1 2 3 4 show ?thesis
    by blast
qed

theorem candidates_sorted_and_cut_witness:
  "\<not> tooShort (readTextSafe sampleFs (Some ''d'')) (param_k (sampleParams 1 4 (4 / 5))) \<and>
   distinct (map id_corpus (corpus_documents (emptyDb [sampleRow 1 ''c1'', sampleRow 2 ''c2'']))) \<and>
   (0 :: int) \<le> min (case None of None \<Rightarrow> 10 | Some n \<Rightarrow> n) 50 \<and>
   map (candidates \<circ> summary_json)
       (newResults (emptyDb [sampleRow 1 ''c1'', sampleRow 2 ''c2''])
          (postCheck latin1 sha1First8 id sampleFs (emptyDb [sampleRow 1 ''c1'', sampleRow 2 ''c2'']) (sampleParams 1 4 (4 / 5)) (Some ''d'') None)) =
     [(selectCandidates latin1 sha1First8 id sampleFs (sampleParams 1 4 (4 / 5)) (readTextSafe sampleFs (Some ''d''))
        (selectActiveCorpus (corpus_documents (emptyDb [sampleRow 1 ''c1'', sampleRow 2 ''c2''])))
        (min (case None of None \<Rightarrow> 10 | Some n \<Rightarrow> n) 50))] \<and>
   sorted_wrt scanOrder
     (selectCandidates latin1 sha1First8 id sampleFs (sampleParams 1 4 (4 / 5)) (readTextSafe sampleFs (Some ''d''))
        (selectActiveCorpus (corpus_documents (emptyDb [sampleRow 1 ''c1'', sampleRow 2 ''c2''])))
        (min (case None of None \<Rightarrow> 10 | Some n \<Rightarrow> n) 50)) \<and>
   (selectCandidates latin1 sha1First8 id sampleFs (sampleParams 1 4 (4 / 5)) (readTextSafe sampleFs (Some ''d''))
        (selectActiveCorpus (corpus_documents (emptyDb [sampleRow 1 ''c1'', sampleRow 2 ''c2''])))
        (min (case None of None \<Rightarrow> 10 | Some n \<Rightarrow> n) 50)) =
     take (nat (min (case None of None \<Rightarrow> 10 | Some n \<Rightarrow> n) 50))
       (sort_key (\<lambda>c. - approx c)
          (scoreCandidates latin1 sha1First8 id sampleFs (param_k (sampleParams 1 4 (4 / 5)))
             (minhashSignature latin1 sha1First8 (readTextSafe sampleFs (Some ''d'')) (param_k (sampleParams 1 4 (4 / 5))) 100)
             (selectActiveCorpus (corpus_documents (emptyDb [sampleRow 1 ''c1'', sampleRow 2 ''c2''])))))"
proof -
  have long: "\<not> tooShort (readTextSafe sampleFs (Some ''d'')) (param_k (sampleParams 1 4 (4 / 5)))"
    using sample_long by (simp add: sample_texts sampleParams_def)
  have ids: "distinct (map id_corpus (corpus_documents (emptyDb [sampleRow 1 ''c1'', sampleRow 2 ''c2''])))"
    by (simp add: emptyDb_def sampleRow_def)
  have cut: "(0 :: int) \<le> min (case None of None \<Rightarrow> 10 | Some n \<Rightarrow> n) 50"
    by simp
  from candidates_sorted_and_cut [OF long ids, of latin1 sha1First8 id None] long ids cut
  show ?thesis
    by blast
qed

section \<open>Winnowing verification and the persisted match rows\<close>

lemma verifyCandidate_append:
  "fst (verifyCandidate U h64 fs ps fpDoc rows st cand) =
     fst st @ fst (verifyCandidate U h64 fs ps fpDoc rows ([], 0) cand)"
  by (simp add: verifyCandidate_def Let_def split: option.splits)

lemma verifyCandidates_concat:
  "fst (foldl (verifyCandidate U h64 fs ps fpDoc rows) st cands) =
     fst st @ concat (map (\<lambda>cand. fst (verifyCandidate U h64 fs ps fpDoc rows ([], 0) cand)) cands)"
proof (induction cands arbitrary: st)
  case Nil
  then show ?case by simp
next
  case (Cons cand cands)
  show ?case
    unfolding foldl_Cons Cons.IH
    by (subst verifyCandidate_append) simp
qed

lemma verifyCandidate_rows:
  assumes "m \<in> set (fst (verifyCandidate U h64 fs ps fpDoc rows ([], 0) cand))"
  shows "\<exists>c s. find (\<lambda>x. id_corpus x = id_corpus cand) rows = Some c \<and>
           s \<in> set (buildMatchSpans fpDoc (winnow U h64 (readTextSafe fs (path_text c)) (param_k ps) (param_w ps))
                       (param_k ps)) \<and>
           source_id m = id_corpus cand \<and>
           match_score m = fingerprintSimilarity fpDoc
                             (winnow U h64 (readTextSafe fs (path_text c)) (param_k ps) (param_w ps)) \<and>
           fl (threshold ps) \<le> match_score m \<and>
           doc_span_start m = doc_span_start s \<and> doc_span_end m = doc_span_end s \<and>
           src_span_start m = src_span_start s \<and> src_span_end m = src_span_end s \<and>
           snippet_hash m = snippet_hash s \<and> source_type m = ''corpus''"
proof (cases "find (\<lambda>x. id_corpus x = id_corpus cand) rows")
  case None
  with assms show ?thesis
    by (simp add: verifyCandidate_def)
next
  case (Some c)
  define fpC where "fpC = winnow U h64 (readTextSafe fs (path_text c)) (param_k ps) (param_w ps)"
  show ?thesis
  proof (cases "fl (threshold ps) \<le> fingerprintSimilarity fpDoc fpC")
    case False
    with assms Some show ?thesis
      by (simp add: verifyCandidate_def Let_def fpC_def)
  next
    case True
    with assms Some obtain s where s: "s \<in> set (arraySlice0 (buildMatchSpans fpDoc fpC (param_k ps)) 50)"
      and m: "m = \<lparr>doc_span_start = doc_span_start s, doc_span_end = doc_span_end s,
                   src_span_start = src_span_start s, src_span_end = src_span_end s,
                   match_score = fingerprintSimilarity fpDoc fpC, snippet_hash = snippet_hash s,
                   source_type = ''corpus'', source_id = id_corpus cand\<rparr>"
      by (auto simp: verifyCandidate_def Let_def fpC_def)
    have "s \<in> set (buildMatchSpans fpDoc fpC (param_k ps))"
      using s by (auto simp: arraySlice0_take dest: in_set_takeD)
    with Some True m show ?thesis
      unfolding fpC_def by auto
  qed
qed

lemma verifyCandidate_sorted:
  assumes "1 \<le> param_k ps"
  shows "sorted_wrt (<) (map doc_span_start (fst (verifyCandidate U h64 fs ps fpDoc rows ([], 0) cand)))"
proof (cases "find (\<lambda>x. id_corpus x = id_corpus cand) rows")
  case None
  then show ?thesis
    by (simp add: verifyCandidate_def)
next
  case (Some c)
  define fpC where "fpC = winnow U h64 (readTextSafe fs (path_text c)) (param_k ps) (param_w ps)"
  have "sorted_wrt (<) (map doc_span_start (buildMatchSpans fpDoc fpC (param_k ps)))"
    using buildMatchSpans_invariant [OF assms] by blast
  then have "sorted_wrt (<) (map doc_span_start (arraySlice0 (buildMatchSpans fpDoc fpC (param_k ps)) 50))"
    by (simp add: arraySlice0_take sorted_wrt_map sorted_wrt_take)
  then show ?thesis
    using Some by (simp add: verifyCandidate_def Let_def fpC_def [symmetric] comp_def)
qed

lemma newMatches_long:
  assumes "\<not> tooShort (readTextSafe fs docPath) (param_k ps)"
  shows "map match_row.truncate (newMatches db (postCheck U h64 sha1hex fs db ps docPath mc)) =
         concat (map (\<lambda>cand. fst (verifyCandidate U h64 fs ps
                                     (winnow U h64 (readTextSafe fs docPath) (param_k ps) (param_w ps))
                                     (selectActiveCorpus (corpus_documents db)) ([], 0) cand))
                     (selectCandidates U h64 sha1hex fs ps (readTextSafe fs docPath)
                        (selectActiveCorpus (corpus_documents db))
                        (min (case mc of None \<Rightarrow> 10 | Some n \<Rightarrow> n) 50)))"
  unfolding newMatches_def postCheck_long(4) [OF assms]
  by (simp add: comp_def truncate_extend verifyCandidates_def Let_def verifyCandidates_concat)

lemma truncate_fields:
  "source_id (match_row.truncate m) = source_id m"
  "match_score (match_row.truncate m) = match_score m"
  "doc_span_start (match_row.truncate m) = doc_span_start m"
  "doc_span_end (match_row.truncate m) = doc_span_end m"
  "src_span_start (match_row.truncate m) = src_span_start m"
  "src_span_end (match_row.truncate m) = src_span_end m"
  "snippet_hash (match_row.truncate m) = snippet_hash m"
  "source_type (match_row.truncate m) = source_type m"
  by (simp_all add: match_row.defs)

lemma sample_matches:
  "newMatches (emptyDb [sampleRow 1 ''c1'', sampleRow 2 ''c2'']) (postCheck latin1 sha1First8 id sampleFs (emptyDb [sampleRow 1 ''c1'', sampleRow 2 ''c2'']) (sampleParams 1 4 (4 / 5)) (Some ''d'') None) =
    [\<lparr>doc_span_start = 0, doc_span_end = 1, src_span_start = 0, src_span_end = 1,
      match_score = 1, snippet_hash = 0x86f7e437faa5a7fc, source_type = ''corpus'', source_id = 2,
      result_id = 1\<rparr>,
     \<lparr>doc_span_start = 3, doc_span_end = 4, src_span_start = 0, src_span_end = 1,
      match_score = 1, snippet_hash = 0x86f7e437faa5a7fc, source_type = ''corpus'', source_id = 2,
      result_id = 1\<rparr>,
     \<lparr>doc_span_start = 0, doc_span_end = 1, src_span_start = 0, src_span_end = 1,
      match_score = 1, snippet_hash = 0x86f7e437faa5a7fc, source_type = ''corpus'', source_id = 1,
      result_id = 1\<rparr>,
     \<lparr>doc_span_start = 3, doc_span_end = 4, src_span_start = 0, src_span_end = 1,
      match_score = 1, snippet_hash = 0x86f7e437faa5a7fc, source_type = ''corpus'', source_id = 1,
      result_id = 1\<rparr>]"
proof -
  have long: "\<not> tooShort (readTextSafe sampleFs (Some ''d'')) (param_k (sampleParams 1 4 (4 / 5)))"
    using sample_long by (simp add: sample_texts sampleParams_def)
  show ?thesis
    unfolding newMatches_def postCheck_long(4) [OF long]
    by (simp add: emptyDb_def [of "[sampleRow 1 ''c1'', sampleRow 2 ''c2'']"] sample_rows sample_texts
          sample_candidates sample_verified match_row.defs nextId_def)
qed

text \<open>
  Claim C1 says that a persisted row carries the span builder's score of its span. The handler
  copies the offsets and the snippet hash of the span and sets \<open>match_score\<close> to the Jaccard
  similarity \<open>sim\<close> of the candidate. For the document \<open>abbabbb\<close> against an equal corpus text,
  with \<open>k = 1\<close> and \<open>w = 4\<close>, the two spans score \<open>min(1, 1 / (2 * 1)) = 1/2\<close> and the rows
  carry 1.
\<close>

theorem persisted_match_score_counterexample:
  "map match_score (newMatches (emptyDb [sampleRow 1 ''c1'', sampleRow 2 ''c2'']) (postCheck latin1 sha1First8 id sampleFs (emptyDb [sampleRow 1 ''c1'', sampleRow 2 ''c2'']) (sampleParams 1 4 (4 / 5)) (Some ''d'') None)) = [1, 1, 1, 1] \<and>
   map match_score (buildMatchSpans (winnow latin1 sha1First8 (ascii ''abbabbb'') 1 4)
                                    (winnow latin1 sha1First8 (ascii ''abbabbb'') 1 4) 1) = [1 / 2, 1 / 2] \<and>
   map (\<lambda>s. min 1 (fl (rat_of_int (doc_span_end s - doc_span_start s) /
                     rat_of_int (int (length (winnow latin1 sha1First8 (ascii ''abbabbb'') 1 4)) * 1))))
       (buildMatchSpans (winnow latin1 sha1First8 (ascii ''abbabbb'') 1 4)
                        (winnow latin1 sha1First8 (ascii ''abbabbb'') 1 4) 1) = [1 / 2, 1 / 2]"
proof -
  have "map match_score (buildMatchSpans (winnow latin1 sha1First8 (ascii ''abbabbb'') 1 4)
                                    (winnow latin1 sha1First8 (ascii ''abbabbb'') 1 4) 1) = [1 / 2, 1 / 2]"
    by code_simp
  moreover have "map (\<lambda>s. min 1 (fl (rat_of_int (doc_span_end s - doc_span_start s) /
                     rat_of_int (int (length (winnow latin1 sha1First8 (ascii ''abbabbb'') 1 4)) * 1))))
       (buildMatchSpans (winnow latin1 sha1First8 (ascii ''abbabbb'') 1 4)
                        (winnow latin1 sha1First8 (ascii ''abbabbb'') 1 4) 1) = [1 / 2, 1 / 2]"
    by code_simp
  ultimately show ?thesis
    by (simp add: sample_matches)
qed

text \<open>
  Claim C1, amended. For \<open>k \<ge> 1\<close>, every match row that a run persists copies the document
  offsets, the source offsets and the snippet hash of a span \<open>s\<close> that the span builder returns
  for the row's corpus document, and its \<open>match_score\<close> is the Jaccard similarity of the two
  fingerprint sequences, which is at least the threshold. The span builder's own value for
  \<open>s\<close>, \<open>min(1, (docEnd - docStart) / (|fpA| * k))\<close>, is not persisted.
\<close>

theorem persisted_match_score_is_similarity:
  fixes U h64 sha1hex fs db ps docPath mc
  defines "r \<equiv> postCheck U h64 sha1hex fs db ps docPath mc"
  defines "docText \<equiv> readTextSafe fs docPath"
  defines "rows \<equiv> selectActiveCorpus (corpus_documents db)"
  defines "fpDoc \<equiv> winnow U h64 docText (param_k ps) (param_w ps)"
  assumes long: "\<not> tooShort docText (param_k ps)"
    and k: "1 \<le> param_k ps"
    and m: "m \<in> set (newMatches db r)"
  shows "\<exists>c s. find (\<lambda>x. id_corpus x = source_id m) rows = Some c \<and>
           s \<in> set (buildMatchSpans fpDoc
                       (winnow U h64 (readTextSafe fs (path_text c)) (param_k ps) (param_w ps))
                       (param_k ps)) \<and>
           doc_span_start m = doc_span_start s \<and> doc_span_end m = doc_span_end s \<and>
           src_span_start m = src_span_start s \<and> src_span_end m = src_span_end s \<and>
           snippet_hash m = snippet_hash s \<and> source_type m = ''corpus'' \<and>
           match_score m = fingerprintSimilarity fpDoc
                             (winnow U h64 (readTextSafe fs (path_text c)) (param_k ps) (param_w ps)) \<and>
           fl (threshold ps) \<le> match_score m \<and>
           match_score s = min 1 (fl (rat_of_int (doc_span_end s - doc_span_start s) /
                                  rat_of_int (int (length fpDoc) * param_k ps)))"
proof -
  have long': "\<not> tooShort (readTextSafe fs docPath) (param_k ps)"
    using long by (simp add: docText_def)
  have "match_row.truncate m \<in> set (map match_row.truncate (newMatches db r))"
    using m by simp
  then obtain cand where
    "match_row.truncate m \<in> set (fst (verifyCandidate U h64 fs ps fpDoc rows ([], 0) cand))"
    unfolding r_def newMatches_long [OF long'] fpDoc_def docText_def rows_def by auto
  from verifyCandidate_rows [OF this] obtain c s
    where c: "find (\<lambda>x. id_corpus x = id_corpus cand) rows = Some c"
      and s: "s \<in> set (buildMatchSpans fpDoc
                       (winnow U h64 (readTextSafe fs (path_text c)) (param_k ps) (param_w ps))
                       (param_k ps))"
      and f: "source_id m = id_corpus cand"
        "match_score m = fingerprintSimilarity fpDoc
                             (winnow U h64 (readTextSafe fs (path_text c)) (param_k ps) (param_w ps))"
        "fl (threshold ps) \<le> match_score m"
        "doc_span_start m = doc_span_start s" "doc_span_end m = doc_span_end s"
        "src_span_start m = src_span_start s" "src_span_end m = src_span_end s"
        "snippet_hash m = snippet_hash s" "source_type m = ''corpus''"
    unfolding truncate_fields by blast
  have "match_score s = min 1 (fl (rat_of_int (doc_span_end s - doc_span_start s) /
                                  rat_of_int (int (length fpDoc) * param_k ps)))"
    using buildMatchSpans_invariant [OF k] s by blast
  with c s f show ?thesis
    by auto
qed

theorem persisted_match_score_is_similarity_witness:
  "\<not> tooShort (readTextSafe sampleFs (Some ''d'')) (param_k (sampleParams 1 4 (4 / 5))) \<and>
   1 \<le> param_k (sampleParams 1 4 (4 / 5)) \<and>
   \<lparr>doc_span_start = 0, doc_span_end = 1, src_span_start = 0, src_span_end = 1,
      match_score = 1, snippet_hash = 0x86f7e437faa5a7fc, source_type = ''corpus'', source_id = 2,
      result_id = 1\<rparr>
     \<in> set (newMatches (emptyDb [sampleRow 1 ''c1'', sampleRow 2 ''c2'']) (postCheck latin1 sha1First8 id sampleFs (emptyDb [sampleRow 1 ''c1'', sampleRow 2 ''c2'']) (sampleParams 1 4 (4 / 5)) (Some ''d'') None)) \<and>
   (\<exists>c s. find (\<lambda>x. id_corpus x = source_id \<lparr>doc_span_start = 0, doc_span_end = 1, src_span_start = 0, src_span_end = 1,
      match_score = 1, snippet_hash = 0x86f7e437faa5a7fc, source_type = ''corpus'', source_id = 2,
      result_id = 1\<rparr>)
              (selectActiveCorpus (corpus_documents (emptyDb [sampleRow 1 ''c1'', sampleRow 2 ''c2'']))) = Some c \<and>
      s \<in> set (buildMatchSpans
                  (winnow latin1 sha1First8 (readTextSafe sampleFs (Some ''d'')) (param_k (sampleParams 1 4 (4 / 5))) (param_w (sampleParams 1 4 (4 / 5))))
                  (winnow latin1 sha1First8 (readTextSafe sampleFs (path_text c)) (param_k (sampleParams 1 4 (4 / 5))) (param_w (sampleParams 1 4 (4 / 5))))
                  (param_k (sampleParams 1 4 (4 / 5)))) \<and>
      src_span_start \<lparr>doc_span_start = 0, doc_span_end = 1, src_span_start = 0, src_span_end = 1,
      match_score = 1, snippet_hash = 0x86f7e437faa5a7fc, source_type = ''corpus'', source_id = 2,
      result_id = 1\<rparr> = src_span_start s \<and>
      src_span_end \<lparr>doc_span_start = 0, doc_span_end = 1, src_span_start = 0, src_span_end = 1,
      match_score = 1, snippet_hash = 0x86f7e437faa5a7fc, source_type = ''corpus'', source_id = 2,
      result_id = 1\<rparr> = src_span_end s \<and>
      snippet_hash \<lparr>doc_span_start = 0, doc_span_end = 1, src_span_start = 0, src_span_end = 1,
      match_score = 1, snippet_hash = 0x86f7e437faa5a7fc, source_type = ''corpus'', source_id = 2,
      result_id = 1\<rparr> = snippet_hash s \<and>
      match_score \<lparr>doc_span_start = 0, doc_span_end = 1, src_span_start = 0, src_span_end = 1,
      match_score = 1, snippet_hash = 0x86f7e437faa5a7fc, source_type = ''corpus'', source_id = 2,
      result_id = 1\<rparr> =
        fingerprintSimilarity
          (winnow latin1 sha1First8 (readTextSafe sampleFs (Some ''d'')) (param_k (sampleParams 1 4 (4 / 5))) (param_w (sampleParams 1 4 (4 / 5))))
          (winnow latin1 sha1First8 (readTextSafe sampleFs (path_text c)) (param_k (sampleParams 1 4 (4 / 5))) (param_w (sampleParams 1 4 (4 / 5)))) \<and>
      fl (threshold (sampleParams 1 4 (4 / 5))) \<le> match_score \<lparr>doc_span_start = 0, doc_span_end = 1, src_span_start = 0, src_span_end = 1,
      match_score = 1, snippet_hash = 0x86f7e437faa5a7fc, source_type = ''corpus'', source_id = 2,
      result_id = 1\<rparr>)"
proof -
  have long: "\<not> tooShort (readTextSafe sampleFs (Some ''d'')) (param_k (sampleParams 1 4 (4 / 5)))"
    using sample_long by (simp add: sample_texts sampleParams_def)
  have k: "1 \<le> param_k (sampleParams 1 4 (4 / 5))"
    by (simp add: sampleParams_def)
  have m: "\<lparr>doc_span_start = 0, doc_span_end = 1, src_span_start = 0, src_span_end = 1,
      match_score = 1, snippet_hash = 0x86f7e437faa5a7fc, source_type = ''corpus'', source_id = 2,
      result_id = 1\<rparr>
     \<in> set (newMatches (emptyDb [sampleRow 1 ''c1'', sampleRow 2 ''c2'']) (postCheck latin1 sha1First8 id sampleFs (emptyDb [sampleRow 1 ''c1'', sampleRow 2 ''c2'']) (sampleParams 1 4 (4 / 5)) (Some ''d'') None))"
    by (simp add: sample_matches)
  from persisted_match_score_is_similarity [OF long k m] long k m show ?thesis
    by blast
qed

text \<open>
  Claim C5 says that the match rows of one check, in insertion order over all candidates, are
  in ascending order of \<open>doc_span_start\<close>. The rows are appended candidate by candidate, so the
  offsets start again with each candidate: with two corpus texts equal to the document
  \<open>abbabbb\<close> the sequence is 0, 3, 0, 3.
\<close>

theorem match_rows_order_counterexample:
  "map doc_span_start (newMatches (emptyDb [sampleRow 1 ''c1'', sampleRow 2 ''c2'']) (postCheck latin1 sha1First8 id sampleFs (emptyDb [sampleRow 1 ''c1'', sampleRow 2 ''c2'']) (sampleParams 1 4 (4 / 5)) (Some ''d'') None)) = [0, 3, 0, 3] \<and>
   \<not> sorted [0, 3, 0, 3 :: int]"
  by (simp add: sample_matches)

text \<open>
  Claim C5, amended. For \<open>k \<ge> 1\<close>, the match rows of one check are the rows of its candidates
  one candidate after the other, in the order of the candidate list; the rows of one candidate
  carry that candidate's id and are in strictly ascending order of \<open>doc_span_start\<close>.
\<close>

theorem match_rows_ascending_per_candidate:
  fixes U h64 sha1hex fs db ps docPath mc
  defines "r \<equiv> postCheck U h64 sha1hex fs db ps docPath mc"
  defines "docText \<equiv> readTextSafe fs docPath"
  defines "rows \<equiv> selectActiveCorpus (corpus_documents db)"
  defines "cands \<equiv> selectCandidates U h64 sha1hex fs ps docText rows
                      (min (case mc of None \<Rightarrow> 10 | Some n \<Rightarrow> n) 50)"
  defines "block \<equiv> (\<lambda>cand. fst (verifyCandidate U h64 fs ps
                                   (winnow U h64 docText (param_k ps) (param_w ps)) rows ([], 0) cand))"
  assumes long: "\<not> tooShort docText (param_k ps)"
    and k: "1 \<le> param_k ps"
  shows "map match_row.truncate (newMatches db r) = concat (map block cands) \<and>
         (\<forall>cand. sorted_wrt (<) (map doc_span_start (block cand)) \<and>
                 (\<forall>m \<in> set (block cand). source_id m = id_corpus cand))"
proof -
  have long': "\<not> tooShort (readTextSafe fs docPath) (param_k ps)"
    using long by (simp add: docText_def)
  have 1: "map match_row.truncate (newMatches db r) = concat (map block cands)"
    unfolding r_def block_def cands_def rows_def docText_def by (rule newMatches_long [OF long'])
  have 2: "sorted_wrt (<) (map doc_span_start (block cand))" for cand
    unfolding block_def using k by (rule verifyCandidate_sorted)
  have 3: "\<forall>m \<in> set (block cand). source_id m = id_corpus cand" for cand
    unfolding block_def using verifyCandidate_rows by blast
  from 1 2 3 show ?thesis
    by blast
qed

theorem match_rows_ascending_per_candidate_witness:
  "\<not> tooShort (readTextSafe sampleFs (Some ''d'')) (param_k (sampleParams 1 4 (4 / 5))) \<and>
   1 \<le> param_k (sampleParams 1 4 (4 / 5)) \<and>
   map match_row.truncate (newMatches (emptyDb [sampleRow 1 ''c1'', sampleRow 2 ''c2'']) (postCheck latin1 sha1First8 id sampleFs (emptyDb [sampleRow 1 ''c1'', sampleRow 2 ''c2'']) (sampleParams 1 4 (4 / 5)) (Some ''d'') None)) =
     concat (map (\<lambda>cand. (fst (verifyCandidate latin1 sha1First8 sampleFs (sampleParams 1 4 (4 / 5))
             (winnow latin1 sha1First8 (readTextSafe sampleFs (Some ''d'')) (param_k (sampleParams 1 4 (4 / 5))) (param_w (sampleParams 1 4 (4 / 5))))
             (selectActiveCorpus (corpus_documents (emptyDb [sampleRow 1 ''c1'', sampleRow 2 ''c2'']))) ([], 0) cand)))
               (selectCandidates latin1 sha1First8 id sampleFs (sampleParams 1 4 (4 / 5)) (readTextSafe sampleFs (Some ''d''))
                  (selectActiveCorpus (corpus_documents (emptyDb [sampleRow 1 ''c1'', sampleRow 2 ''c2''])))
                  (min (case None of None \<Rightarrow> 10 | Some n \<Rightarrow> n) 50))) \<and>
   sorted_wrt (<) (map doc_span_start
      (fst (verifyCandidate latin1 sha1First8 sampleFs (sampleParams 1 4 (4 / 5))
             (winnow latin1 sha1First8 (readTextSafe sampleFs (Some ''d'')) (param_k (sampleParams 1 4 (4 / 5))) (param_w (sampleParams 1 4 (4 / 5))))
             (selectActiveCorpus (corpus_documents (emptyDb [sampleRow 1 ''c1'', sampleRow 2 ''c2'']))) ([], 0) \<lparr>id_corpus = 2, title = ''t'', approx = 1\<rparr>))) \<and>
   map doc_span_start
      (fst (verifyCandidate latin1 sha1First8 sampleFs (sampleParams 1 4 (4 / 5))
             (winnow latin1 sha1First8 (readTextSafe sampleFs (Some ''d'')) (param_k (sampleParams 1 4 (4 / 5))) (param_w (sampleParams 1 4 (4 / 5))))
             (selectActiveCorpus (corpus_documents (emptyDb [sampleRow 1 ''c1'', sampleRow 2 ''c2'']))) ([], 0) \<lparr>id_corpus = 2, title = ''t'', approx = 1\<rparr>)) = [0, 3]"
proof -
  have long: "\<not> tooShort (readTextSafe sampleFs (Some ''d'')) (param_k (sampleParams 1 4 (4 / 5)))"
    using sample_long by (simp add: sample_texts sampleParams_def)
  have k: "1 \<le> param_k (sampleParams 1 4 (4 / 5))"
    by (simp add: sampleParams_def)
  have v: "map doc_span_start
      (fst (verifyCandidate latin1 sha1First8 sampleFs (sampleParams 1 4 (4 / 5))
             (winnow latin1 sha1First8 (readTextSafe sampleFs (Some ''d'')) (param_k (sampleParams 1 4 (4 / 5))) (param_w (sampleParams 1 4 (4 / 5))))
             (selectActiveCorpus (corpus_documents (emptyDb [sampleRow 1 ''c1'', sampleRow 2 ''c2'']))) ([], 0) \<lparr>id_corpus = 2, title = ''t'', approx = 1\<rparr>)) = [0, 3]"
    by code_simp
  from match_rows_ascending_per_candidate [OF long k, where U = latin1 and ?h64.0 = sha1First8 and sha1hex = id
      and db = "emptyDb [sampleRow 1 ''c1'', sampleRow 2 ''c2'']" and mc = None] long k v
  show ?thesis
    by blast
qed

section \<open>Corpus texts that cannot be read\<close>

lemma unreadable_tooShort:
  assumes "unreadable fs c"
  shows "tooShort (readTextSafe fs (path_text c)) k"
proof -
  from assms obtain p where "path_text c = Some p" "fs p = None"
    by (cases "path_text c") (simp_all add: unreadable_def)
  then have "readTextSafe fs (path_text c) = []"
    by (simp add: readTextSafe_def)
  then show ?thesis
    by (simp add: tooShort_def)
qed

lemma scoreCandidates_filter_readable:
  "scoreCandidates U h64 sha1hex fs k sig (filter (\<lambda>c. \<not> unreadable fs c) rows) =
   scoreCandidates U h64 sha1hex fs k sig rows"
proof (induction rows)
  case Nil
  then show ?case by simp
next
  case (Cons c rows)
  have whole: "scoreCandidates U h64 sha1hex fs k sig (c # rows) =
      scoreCandidates U h64 sha1hex fs k sig [c] @ scoreCandidates U h64 sha1hex fs k sig rows"
    by (rule scoreCandidates_Cons)
  show ?case
  proof (cases "unreadable fs c")
    case True
    then have "scoreCandidates U h64 sha1hex fs k sig [c] = []"
      by (intro scoreCandidates_skip unreadable_tooShort)
    with True Cons show ?thesis
      by (simp only: whole filter.simps) simp
  next
    case False
    have "scoreCandidates U h64 sha1hex fs k sig (c # filter (\<lambda>c. \<not> unreadable fs c) rows) =
      scoreCandidates U h64 sha1hex fs k sig [c] @
      scoreCandidates U h64 sha1hex fs k sig (filter (\<lambda>c. \<not> unreadable fs c) rows)"
      by (rule scoreCandidates_Cons)
    with False Cons show ?thesis
      by (simp only: whole filter.simps) simp
  qed
qed

lemma selectActiveCorpus_filter:
  "selectActiveCorpus (filter Q tbl) = filter Q (selectActiveCorpus tbl)"
  by (simp add: selectActiveCorpus_def filter_sort conj_commute)

lemma selectActiveCorpus_distinct:
  assumes "distinct (map id_corpus tbl)"
  shows "distinct (map id_corpus (selectActiveCorpus tbl))"
proof -
  have "distinct (map id_corpus (filter (\<lambda>c. is_active c \<and> path_text c \<noteq> None) tbl))"
    using assms by (rule distinct_map_filter)
  then show ?thesis
    unfolding selectActiveCorpus_def by (simp add: distinct_map)
qed

lemma find_by_key:
  assumes "distinct (map f xs)" and "c \<in> set xs"
  shows "find (\<lambda>x. f x = f c) xs = Some c"
  using assms by (induction xs) (auto simp: image_iff)

lemma verifyCandidate_filter_readable:
  assumes ids: "distinct (map id_corpus rows)"
    and cand: "\<exists>c \<in> set rows. id_corpus cand = id_corpus c \<and> \<not> unreadable fs c"
  shows "verifyCandidate U h64 fs ps fpDoc (filter (\<lambda>c. \<not> unreadable fs c) rows) st cand =
         verifyCandidate U h64 fs ps fpDoc rows st cand"
proof -
  obtain c where c: "c \<in> set rows" "id_corpus cand = id_corpus c" "\<not> unreadable fs c"
    using cand by blast
  have "find (\<lambda>x. id_corpus x = id_corpus c) rows = Some c"
    using ids c(1) by (rule find_by_key)
  moreover have "find (\<lambda>x. id_corpus x = id_corpus c) (filter (\<lambda>c. \<not> unreadable fs c) rows) = Some c"
    using ids c(1,3) by (intro find_by_key distinct_map_filter) simp_all
  ultimately show ?thesis
    by (simp add: verifyCandidate_def c(2))
qed

lemma foldl_same:
  "(\<And>a x. x \<in> set xs \<Longrightarrow> f a x = g a x) \<Longrightarrow> foldl f a xs = foldl g a xs"
  by (induction xs arbitrary: a) simp_all

lemma selectCandidates_filter_readable:
  "selectCandidates U h64 sha1hex fs ps docText (filter (\<lambda>c. \<not> unreadable fs c) rows) n =
   selectCandidates U h64 sha1hex fs ps docText rows n"
  by (simp add: selectCandidates_def scoreCandidates_filter_readable)

lemma selectCandidates_from_row:
  assumes "x \<in> set (selectCandidates U h64 sha1hex fs ps docText rows n)"
  shows "\<exists>c \<in> set rows. id_corpus x = id_corpus c \<and> \<not> unreadable fs c"
proof -
  have "x \<in> set (scoreCandidates U h64 sha1hex fs (param_k ps)
                    (minhashSignature U h64 docText (param_k ps) 100) rows)"
    using assms by (auto simp: selectCandidates_def Let_def arraySlice0_take dest: in_set_takeD)
  from scoreCandidates_from_row [OF this] show ?thesis
    using unreadable_tooShort by blast
qed

lemma verifyCandidates_filter_readable:
  assumes "distinct (map id_corpus rows)"
  shows "verifyCandidates U h64 fs ps docText (filter (\<lambda>c. \<not> unreadable fs c) rows)
           (selectCandidates U h64 sha1hex fs ps docText rows n) =
         verifyCandidates U h64 fs ps docText rows (selectCandidates U h64 sha1hex fs ps docText rows n)"
  unfolding verifyCandidates_def Let_def
  by (rule foldl_same) (rule verifyCandidate_filter_readable [OF assms selectCandidates_from_row])

text \<open>
  Claim C6 says that a corpus entry whose text cannot be read is skipped without aborting the
  run, and that the persisted summary records the skip in a structured warning. The summary
  has the parameters, the candidates and the best similarity, and nothing else: with one
  corpus entry whose file is missing, it is the summary of a run on an empty corpus.
\<close>

theorem summary_warning_counterexample:
  "unreadable sampleFs (sampleRow 1 ''missing'') \<and>
   snd (postCheck latin1 sha1First8 id sampleFs (emptyDb [sampleRow 1 ''missing'']) (sampleParams 1 4 (4 / 5)) (Some ''d'') None) = Created 1 1 0 (fl (4 / 5)) 0 0 \<and>
   map summary_json (newResults (emptyDb [sampleRow 1 ''missing'']) (postCheck latin1 sha1First8 id sampleFs (emptyDb [sampleRow 1 ''missing'']) (sampleParams 1 4 (4 / 5)) (Some ''d'') None)) =
     [\<lparr>params = (sampleParams 1 4 (4 / 5))\<lparr>threshold := fl (4 / 5)\<rparr>, candidates = [],
       best_similarity = 0\<rparr>] \<and>
   map summary_json (newResults (emptyDb []) (postCheck latin1 sha1First8 id sampleFs (emptyDb []) (sampleParams 1 4 (4 / 5)) (Some ''d'') None)) =
     [\<lparr>params = (sampleParams 1 4 (4 / 5))\<lparr>threshold := fl (4 / 5)\<rparr>, candidates = [],
       best_similarity = 0\<rparr>]"
proof -
  have long: "\<not> tooShort (readTextSafe sampleFs (Some ''d'')) (param_k (sampleParams 1 4 (4 / 5)))"
    using sample_long by (simp add: sample_texts sampleParams_def)
  have u: "unreadable sampleFs (sampleRow 1 ''missing'')"
    by (simp add: unreadable_def sampleRow_def sampleFs_def)
  have th: "threshold (sampleParams 1 4 (4 / 5)) = 4 / 5"
    by (simp add: sampleParams_def)
  have rows1: "selectActiveCorpus [sampleRow 1 ''missing''] = [sampleRow 1 ''missing'']"
    by code_simp
  have rows0: "selectActiveCorpus [] = ([] :: corpus_document list)"
    by (simp add: selectActiveCorpus_def)
  have c1: "selectCandidates latin1 sha1First8 id sampleFs (sampleParams 1 4 (4 / 5)) (ascii ''abbabbb'') [sampleRow 1 ''missing''] 10 = []"
    by (simp add: selectCandidates_def scoreCandidates_skip [OF unreadable_tooShort [OF u]]
          arraySlice0_def)
  have c0: "selectCandidates latin1 sha1First8 id sampleFs (sampleParams 1 4 (4 / 5)) (ascii ''abbabbb'') [] 10 = []"
    by (simp add: selectCandidates_def scoreCandidates_Nil arraySlice0_def)
  have v: "verifyCandidates latin1 sha1First8 sampleFs (sampleParams 1 4 (4 / 5)) (ascii ''abbabbb'') rows [] = ([], 0)" for rows
    by (simp add: verifyCandidates_def)
  have 1: "map summary_json (newResults (emptyDb [sampleRow 1 ''missing'']) (postCheck latin1 sha1First8 id sampleFs (emptyDb [sampleRow 1 ''missing'']) (sampleParams 1 4 (4 / 5)) (Some ''d'') None)) =
     [\<lparr>params = (sampleParams 1 4 (4 / 5))\<lparr>threshold := fl (4 / 5)\<rparr>, candidates = [],
       best_similarity = 0\<rparr>]"
    unfolding newResults_def postCheck_long(3) [OF long]
    by (simp add: emptyDb_def [of "[sampleRow 1 ''missing'']"] rows1 sample_texts c1 v th)
  have 2: "map summary_json (newResults (emptyDb []) (postCheck latin1 sha1First8 id sampleFs (emptyDb []) (sampleParams 1 4 (4 / 5)) (Some ''d'') None)) =
     [\<lparr>params = (sampleParams 1 4 (4 / 5))\<lparr>threshold := fl (4 / 5)\<rparr>, candidates = [],
       best_similarity = 0\<rparr>]"
    unfolding newResults_def postCheck_long(3) [OF long]
    by (simp add: emptyDb_def [of "[]"] rows0 sample_texts c0 v th)
  have half: "\<lfloor>(1 :: rat) / 2\<rfloor> = 0"
    by (rule floor_unique) simp_all
  have 3: "snd (postCheck latin1 sha1First8 id sampleFs (emptyDb [sampleRow 1 ''missing'']) (sampleParams 1 4 (4 / 5)) (Some ''d'') None) = Created 1 1 0 (fl (4 / 5)) 0 0"
    unfolding postCheck_long(1) [OF long]
    by (simp add: emptyDb_def [of "[sampleRow 1 ''missing'']"] rows1 sample_texts c1 v nextId_def th half fl_0)
  from u 1 2 3 show ?thesis
    by blast
qed

text \<open>
  Claim C6, amended. When corpus ids are distinct, a run does what it does on the corpus
  without the entries whose text file cannot be read: the response, the request rows, the
  result rows with their summaries and the match rows are the same. The summary records
  nothing about a skipped entry.
\<close>

theorem unreadable_corpus_rows_skipped:
  fixes U h64 sha1hex fs db ps docPath mc
  defines "readable \<equiv> db\<lparr>corpus_documents := filter (\<lambda>c. \<not> unreadable fs c) (corpus_documents db)\<rparr>"
  assumes ids: "distinct (map id_corpus (corpus_documents db))"
  shows "snd (postCheck U h64 sha1hex fs db ps docPath mc) =
           snd (postCheck U h64 sha1hex fs readable ps docPath mc) \<and>
         check_requests (fst (postCheck U h64 sha1hex fs db ps docPath mc)) =
           check_requests (fst (postCheck U h64 sha1hex fs readable ps docPath mc)) \<and>
         check_results (fst (postCheck U h64 sha1hex fs db ps docPath mc)) =
           check_results (fst (postCheck U h64 sha1hex fs readable ps docPath mc)) \<and>
         check_matches (fst (postCheck U h64 sha1hex fs db ps docPath mc)) =
           check_matches (fst (postCheck U h64 sha1hex fs readable ps docPath mc))"
proof (cases "tooShort (readTextSafe fs docPath) (param_k ps)")
  case True
  then show ?thesis
    by (simp add: postCheck_short readable_def)
next
  case False
  define rows where "rows = selectActiveCorpus (corpus_documents db)"
  define n where "n = min (case mc of None \<Rightarrow> 10 | Some n \<Rightarrow> n) 50"
  have rows': "selectActiveCorpus (corpus_documents readable) = filter (\<lambda>c. \<not> unreadable fs c) rows"
    by (simp add: readable_def rows_def selectActiveCorpus_filter)
  have d: "distinct (map id_corpus rows)"
    unfolding rows_def using ids by (rule selectActiveCorpus_distinct)
  have c: "selectCandidates U h64 sha1hex fs ps (readTextSafe fs docPath)
             (selectActiveCorpus (corpus_documents readable)) n =
           selectCandidates U h64 sha1hex fs ps (readTextSafe fs docPath) rows n"
    by (simp add: rows' selectCandidates_filter_readable)
  have v: "verifyCandidates U h64 fs ps (readTextSafe fs docPath)
             (selectActiveCorpus (corpus_documents readable))
             (selectCandidates U h64 sha1hex fs ps (readTextSafe fs docPath) rows n) =
           verifyCandidates U h64 fs ps (readTextSafe fs docPath) rows
             (selectCandidates U h64 sha1hex fs ps (readTextSafe fs docPath) rows n)"
    unfolding rows' using d by (rule verifyCandidates_filter_readable)
  have same: "check_requests readable = check_requests db" "check_results readable = check_results db"
    "check_matches readable = check_matches db"
    by (simp_all add: readable_def)
  show ?thesis
    unfolding postCheck_long [OF False] same
    by (simp add: c [unfolded n_def rows_def] v [unfolded n_def rows_def])
qed

theorem unreadable_corpus_rows_skipped_witness:
  "distinct (map id_corpus (corpus_documents (emptyDb [sampleRow 1 ''missing'']))) \<and>
   unreadable sampleFs (sampleRow 1 ''missing'') \<and>
   (emptyDb [sampleRow 1 ''missing''])\<lparr>corpus_documents := filter (\<lambda>c. \<not> unreadable sampleFs c)
                                 (corpus_documents (emptyDb [sampleRow 1 ''missing'']))\<rparr> = (emptyDb []) \<and>
   snd (postCheck latin1 sha1First8 id sampleFs (emptyDb [sampleRow 1 ''missing'']) (sampleParams 1 4 (4 / 5)) (Some ''d'') None) = snd (postCheck latin1 sha1First8 id sampleFs (emptyDb []) (sampleParams 1 4 (4 / 5)) (Some ''d'') None) \<and>
   check_results (fst (postCheck latin1 sha1First8 id sampleFs (emptyDb [sampleRow 1 ''missing'']) (sampleParams 1 4 (4 / 5)) (Some ''d'') None)) = check_results (fst (postCheck latin1 sha1First8 id sampleFs (emptyDb []) (sampleParams 1 4 (4 / 5)) (Some ''d'') None)) \<and>
   check_matches (fst (postCheck latin1 sha1First8 id sampleFs (emptyDb [sampleRow 1 ''missing'']) (sampleParams 1 4 (4 / 5)) (Some ''d'') None)) = check_matches (fst (postCheck latin1 sha1First8 id sampleFs (emptyDb []) (sampleParams 1 4 (4 / 5)) (Some ''d'') None))"
proof -
  have ids: "distinct (map id_corpus (corpus_documents (emptyDb [sampleRow 1 ''missing''])))"
    by (simp add: emptyDb_def)
  have u: "unreadable sampleFs (sampleRow 1 ''missing'')"
    by (simp add: unreadable_def sampleRow_def sampleFs_def)
  have f: "(emptyDb [sampleRow 1 ''missing''])\<lparr>corpus_documents := filter (\<lambda>c. \<not> unreadable sampleFs c)
                                 (corpus_documents (emptyDb [sampleRow 1 ''missing'']))\<rparr> = (emptyDb [])"
    using u by (simp add: emptyDb_def)
  from unreadable_corpus_rows_skipped [OF ids, of latin1 sha1First8 id sampleFs "sampleParams 1 4 (4 / 5)" "Some ''d''" None]
  have "snd (postCheck latin1 sha1First8 id sampleFs (emptyDb [sampleRow 1 ''missing'']) (sampleParams 1 4 (4 / 5)) (Some ''d'') None) = snd (postCheck latin1 sha1First8 id sampleFs (emptyDb []) (sampleParams 1 4 (4 / 5)) (Some ''d'') None) \<and>
   check_results (fst (postCheck latin1 sha1First8 id sampleFs (emptyDb [sampleRow 1 ''missing'']) (sampleParams 1 4 (4 / 5)) (Some ''d'') None)) = check_results (fst (postCheck latin1 sha1First8 id sampleFs (emptyDb []) (sampleParams 1 4 (4 / 5)) (Some ''d'') None)) \<and>
   check_matches (fst (postCheck latin1 sha1First8 id sampleFs (emptyDb [sampleRow 1 ''missing'']) (sampleParams 1 4 (4 / 5)) (Some ''d'') None)) = check_matches (fst (postCheck latin1 sha1First8 id sampleFs (emptyDb []) (sampleParams 1 4 (4 / 5)) (Some ''d'') None))"
    unfolding f by blast
  with ids u f show ?thesis
    by blast
qed

end
